theory Spec2Isabelle
  imports Complex_Main "HOL-Library.Sublist"
begin

section \<open>Strings and Python values\<close>

text \<open>
  A Python \<open>str\<close> is a sequence of Unicode code points, and \<open>len\<close> counts code points.
  The documents handled here are mostly Chinese, so a string is modelled as a list of code
  points (natural numbers), not as a list of 8-bit characters. \<open>u\<close> turns an ASCII
  literal into such a string.
\<close>

type_synonym ustr = "nat list"

definition u :: "string \<Rightarrow> ustr" where
  "u s = map of_char s"

datatype pyval = PyNone | PyBool bool | PyInt int | PyStr ustr

text \<open>
  \<open>str.isspace\<close>, which is also the class \<open>\s\<close> of the \<open>re\<close> module on \<open>str\<close> patterns
  and the set removed by \<open>str.strip()\<close>: U+0009..U+000D, U+001C..U+0020, U+0085, U+00A0,
  U+1680, U+2000..U+200A, U+2028, U+2029, U+202F, U+205F, U+3000.
\<close>

definition is_space :: "nat \<Rightarrow> bool" where
  "is_space c = ((9 \<le> c \<and> c \<le> 13) \<or> (28 \<le> c \<and> c \<le> 32) \<or> c = 133 \<or> c = 160
     \<or> c = 5760 \<or> (8192 \<le> c \<and> c \<le> 8202) \<or> c = 8232 \<or> c = 8233 \<or> c = 8239
     \<or> c = 8287 \<or> c = 12288)"

definition lstrip :: "ustr \<Rightarrow> ustr" where
  "lstrip s = dropWhile is_space s"

definition rstrip :: "ustr \<Rightarrow> ustr" where
  "rstrip s = rev (dropWhile is_space (rev s))"

definition strip :: "ustr \<Rightarrow> ustr" where
  "strip s = rstrip (lstrip s)"

text \<open>
  The parts of the Unicode character database that the code reaches through \<open>str.lower\<close>
  and the class \<open>\w\<close>. They belong to the Python runtime, not to the repository, and are
  taken as a parameter: \<open>py_lower\<close> is \<open>str.lower\<close> on a whole string (it is not
  character-wise: it can change the length), \<open>is_alnum\<close> is \<open>str.isalnum\<close> on one code
  point, \<open>is_decimal\<close> is the class \<open>\d\<close> (the decimal digits, the characters \<open>int\<close>
  accepts), \<open>is_digit\<close> is \<open>str.isdigit\<close> on one code point (a larger set: it also
  holds of superscript digits, which \<open>int\<close> rejects), and \<open>digit_value\<close> is the value
  of a decimal digit. \<open>int_max_str_digits\<close> is the interpreter's limit on the number of
  digits that \<open>int\<close> converts, \<open>sys.get_int_max_str_digits()\<close>: 4300 by default, 0 when the
  limit is switched off.
\<close>

record unicode_db =
  py_lower :: "ustr \<Rightarrow> ustr"
  is_alnum :: "nat \<Rightarrow> bool"
  is_decimal :: "nat \<Rightarrow> bool"
  is_digit :: "nat \<Rightarrow> bool"
  digit_value :: "nat \<Rightarrow> nat"
  int_max_str_digits :: nat

definition is_word :: "unicode_db \<Rightarrow> nat \<Rightarrow> bool" where
  "is_word U c = (is_alnum U c \<or> c = 95)"

definition is_cjk :: "nat \<Rightarrow> bool" where
  "is_cjk c = (19968 \<le> c \<and> c \<le> 40959)"

text \<open>
  The tables restricted to ASCII, where \<open>str.lower\<close> maps \<open>A..Z\<close> to \<open>a..z\<close> and
  \<open>str.isalnum\<close> holds of letters and digits, and the digits are \<open>0..9\<close>. They agree
  with CPython on strings of ASCII
  code points and are used to evaluate examples made of such strings. The limit on the
  digits of a conversion has its default value.
\<close>

definition ascii_lower_char :: "nat \<Rightarrow> nat" where
  "ascii_lower_char c = (if 65 \<le> c \<and> c \<le> 90 then c + 32 else c)"

definition ascii_db :: unicode_db where
  "ascii_db = \<lparr> py_lower = map ascii_lower_char,
                is_alnum = (\<lambda>c. (48 \<le> c \<and> c \<le> 57) \<or> (65 \<le> c \<and> c \<le> 90) \<or> (97 \<le> c \<and> c \<le> 122)),
                is_decimal = (\<lambda>c. 48 \<le> c \<and> c \<le> 57),
                is_digit = (\<lambda>c. 48 \<le> c \<and> c \<le> 57),
                digit_value = (\<lambda>c. c - 48),
                int_max_str_digits = 4300 \<rparr>"

section \<open>Regular expressions (the \<open>re\<close> module)\<close>

text \<open>
  The patterns of the source are values of the datatype \<open>rx\<close>, which has the constructs
  they use: a character class, a repeated character class with its bounds and its mode
  (greedy or lazy), the anchors \<open>^\<close> and \<open>$\<close> under \<open>re.MULTILINE\<close>, the start of the
  string (\<open>^\<close> without that flag), sequence, alternation, a numbered group and a positive
  lookahead. Every repetition in the source is over a single character class.

  \<open>rx_ends r t (p, c)\<close> lists, in the order in which the backtracking matcher of \<open>re\<close>
  tries them, the ways \<open>r\<close> can match in \<open>t\<close> from position \<open>p\<close> with the groups \<open>c\<close>
  set so far: each is an end position with the groups then set. The match \<open>re\<close> reports at
  \<open>p\<close> is the first of the list. The class \<open>.\<close> is every character but the newline
  (code point 10); \<open>^\<close> under \<open>MULTILINE\<close> holds at the start of the string and after
  each newline, \<open>$\<close> at the end of the string and before each newline.
\<close>

type_synonym caps = "nat \<rightharpoonup> nat \<times> nat"

datatype rx =
    Chr "nat \<Rightarrow> bool"
  | Rep "nat \<Rightarrow> bool" nat "nat option" bool
  | Bol
  | Eol
  | Start
  | Eps
  | Seq rx rx
  | Alt rx rx
  | Grp nat rx
  | Look rx

definition rep_counts :: "nat \<Rightarrow> nat option \<Rightarrow> bool \<Rightarrow> nat \<Rightarrow> nat list" where
  "rep_counts lo hi greedy n =
     (let m = (case hi of None \<Rightarrow> n | Some h \<Rightarrow> min h n) in
      if m < lo then [] else if greedy then rev [lo ..< Suc m] else [lo ..< Suc m])"

fun rx_ends :: "rx \<Rightarrow> ustr \<Rightarrow> nat \<times> caps \<Rightarrow> (nat \<times> caps) list" where
  "rx_ends (Chr P) t (p, c) = (if p < length t \<and> P (t ! p) then [(Suc p, c)] else [])"
| "rx_ends (Rep P lo hi greedy) t (p, c) =
     map (\<lambda>k. (p + k, c)) (rep_counts lo hi greedy (length (takeWhile P (drop p t))))"
| "rx_ends Bol t (p, c) =
     (if p = 0 \<or> (p \<le> length t \<and> t ! (p - 1) = 10) then [(p, c)] else [])"
| "rx_ends Eol t (p, c) =
     (if p = length t \<or> (p < length t \<and> t ! p = 10) then [(p, c)] else [])"
| "rx_ends Start t (p, c) = (if p = 0 then [(p, c)] else [])"
| "rx_ends Eps t (p, c) = [(p, c)]"
| "rx_ends (Seq a b) t (p, c) = concat (map (rx_ends b t) (rx_ends a t (p, c)))"
| "rx_ends (Alt a b) t (p, c) = rx_ends a t (p, c) @ rx_ends b t (p, c)"
| "rx_ends (Grp i r) t (p, c) =
     map (\<lambda>(e, c'). (e, c'(i \<mapsto> (p, e)))) (rx_ends r t (p, c))"
| "rx_ends (Look r) t (p, c) =
     (case rx_ends r t (p, c) of [] \<Rightarrow> [] | (e, c') # _ \<Rightarrow> [(p, c')])"

text \<open>A match object: \<open>start()\<close>, \<open>end()\<close> and the spans of the groups that took part.\<close>

record rmatch =
  m_start :: nat
  m_end :: nat
  m_caps :: caps

definition match_at :: "rx \<Rightarrow> ustr \<Rightarrow> nat \<Rightarrow> rmatch option" where
  "match_at r t p = (case rx_ends r t (p, Map.empty) of
       [] \<Rightarrow> None
     | (e, c) # _ \<Rightarrow> Some \<lparr> m_start = p, m_end = e, m_caps = c \<rparr>)"

text \<open>
  \<open>pattern.finditer(t)\<close>: the leftmost match from each position, the search resuming at
  the end of the match. No pattern of the source matches the empty string; after an empty
  match the model moves one position on.
\<close>

function finditer_from :: "rx \<Rightarrow> ustr \<Rightarrow> nat \<Rightarrow> rmatch list" where
  "finditer_from r t p =
     (if length t < p then []
      else (case match_at r t p of
              None \<Rightarrow> finditer_from r t (Suc p)
            | Some m \<Rightarrow> m # finditer_from r t (if m_end m \<le> p then Suc p else m_end m)))"
  by pat_completeness auto
termination
  by (relation "measure (\<lambda>(r, t, p). Suc (length t) - p)") auto

definition finditer :: "rx \<Rightarrow> ustr \<Rightarrow> rmatch list" where
  "finditer r t = finditer_from r t 0"

text \<open>The slice \<open>t[a:b]\<close> for \<open>0 \<le> a\<close> and \<open>0 \<le> b\<close>.\<close>

definition slice :: "ustr \<Rightarrow> nat \<Rightarrow> nat \<Rightarrow> ustr" where
  "slice t a b = take (b - a) (drop a t)"

definition group_str :: "ustr \<Rightarrow> rmatch \<Rightarrow> nat \<Rightarrow> ustr option" where
  "group_str t m i = (case m_caps m i of None \<Rightarrow> None | Some (s, e) \<Rightarrow> Some (slice t s e))"

text \<open>
  \<open>pattern.sub(repl, t)\<close> for a replacement without group references, and
  \<open>re.split(pattern, t)\<close> for a pattern without groups: the text between the matches.
\<close>

fun sub_spans :: "ustr \<Rightarrow> ustr \<Rightarrow> nat \<Rightarrow> rmatch list \<Rightarrow> ustr" where
  "sub_spans t repl p [] = drop p t"
| "sub_spans t repl p (m # ms) = slice t p (m_start m) @ repl @ sub_spans t repl (m_end m) ms"

definition rx_sub :: "rx \<Rightarrow> ustr \<Rightarrow> ustr \<Rightarrow> ustr" where
  "rx_sub r repl t = sub_spans t repl 0 (finditer r t)"

fun split_spans :: "ustr \<Rightarrow> nat \<Rightarrow> rmatch list \<Rightarrow> ustr list" where
  "split_spans t p [] = [drop p t]"
| "split_spans t p (m # ms) = slice t p (m_start m) # split_spans t (m_end m) ms"

definition rx_split :: "rx \<Rightarrow> ustr \<Rightarrow> ustr list" where
  "rx_split r t = split_spans t 0 (finditer r t)"

text \<open>Abbreviations for writing the patterns.\<close>

definition lit :: "nat \<Rightarrow> rx" where
  "lit c = Chr (\<lambda>x. x = c)"

definition one_of :: "nat list \<Rightarrow> rx" where
  "one_of cs = Chr (\<lambda>x. x \<in> set cs)"

definition opt :: "nat list \<Rightarrow> rx" where
  "opt cs = Rep (\<lambda>x. x \<in> set cs) 0 (Some 1) True"

fun rx_seq :: "rx list \<Rightarrow> rx" where
  "rx_seq [] = Eps"
| "rx_seq [r] = r"
| "rx_seq (r # rs) = Seq r (rx_seq rs)"

fun rx_alt :: "rx list \<Rightarrow> rx" where
  "rx_alt [] = Chr (\<lambda>x. False)"
| "rx_alt [r] = r"
| "rx_alt (r # rs) = Alt r (rx_alt rs)"

definition rx_str :: "ustr \<Rightarrow> rx" where
  "rx_str s = rx_seq (map lit s)"

definition dot :: "nat \<Rightarrow> bool" where
  "dot c = (c \<noteq> 10)"

definition any_char :: "nat \<Rightarrow> bool" where
  "any_char c = True"

definition ws_star :: rx where
  "ws_star = Rep is_space 0 None True"

definition dot_plus :: rx where
  "dot_plus = Rep dot 1 None True"

definition dot_plus_lazy :: rx where
  "dot_plus_lazy = Rep dot 1 None False"

datatype py_error = ValueError | TypeError | AttributeError | IndexError

text \<open>
  \<open>int(s)\<close> on a string: the value of a non-empty string of decimal digits, and
  \<open>ValueError\<close> otherwise (signs, underscores and surrounding whitespace do not occur where
  the source calls \<open>int\<close>). Python integers are unbounded, but \<open>int\<close> raises
  \<open>ValueError\<close> on a string with more digits than the interpreter's limit, leading zeros
  included, unless the limit is 0.
\<close>

definition py_int :: "unicode_db \<Rightarrow> ustr \<Rightarrow> py_error + int" where
  "py_int U s =
     (if s \<noteq> [] \<and> list_all (is_decimal U) s
      then (if 0 < int_max_str_digits U \<and> int_max_str_digits U < length s
            then Inl ValueError
            else Inr (foldl (\<lambda>acc c. acc * 10 + int (digit_value U c)) 0 s))
      else Inl ValueError)"

text \<open>
  A loop that may raise: the results of its iterations in order, each an error, a skipped
  item or an item. The first error ends the loop.
\<close>

fun collect :: "(py_error + 'a option) list \<Rightarrow> py_error + 'a list" where
  "collect [] = Inr []"
| "collect (Inl e # rs) = Inl e"
| "collect (Inr x # rs) =
     (case collect rs of Inl e \<Rightarrow> Inl e
      | Inr xs \<Rightarrow> Inr (case x of None \<Rightarrow> xs | Some y \<Rightarrow> y # xs))"

section \<open>Chunks and configuration\<close>

text \<open>The dataclass \<open>Chunk\<close> of \<open>parsers/chunker.py\<close>; \<open>char_count\<close> is a property.\<close>

record Chunk =
  chunk_id :: ustr
  content :: ustr
  question :: "ustr option"
  answer :: "ustr option"
  chunk_type :: ustr
  source_file :: "ustr option"
  page_num :: "int option"
  question_num :: "int option"
  metadata :: "(ustr \<times> pyval) list"

definition char_count :: "Chunk \<Rightarrow> nat" where
  "char_count c = length (content c)"

text \<open>
  \<open>QualityConfig\<close> of \<open>config/settings.py\<close>. Python floats are idealised as exact
  rationals throughout.
\<close>

record QualityConfig =
  garbled_threshold :: rat
  min_content_length :: int
  dedup_threshold :: rat
  sample_ratio :: rat

definition default_quality_config :: QualityConfig where
  "default_quality_config =
     \<lparr> garbled_threshold = 3 / 10, min_content_length = 20,
       dedup_threshold = 95 / 100, sample_ratio = 1 / 10 \<rparr>"

section \<open>The deduplicator (\<open>quality/deduplicator.py\<close>)\<close>

text \<open>\<open>re.sub(r'\s+', ' ', text)\<close>: every maximal run of whitespace becomes one space.\<close>

fun collapse_ws :: "bool \<Rightarrow> ustr \<Rightarrow> ustr" where
  "collapse_ws in_run [] = []"
| "collapse_ws in_run (c # s) =
     (if is_space c then (if in_run then collapse_ws True s else 32 # collapse_ws True s)
      else c # collapse_ws False s)"

text \<open>
  \<open>_normalize_text\<close>: lower case, collapse whitespace, drop every character outside
  \<open>[\w\s\u4e00-\u9fff]\<close>, strip.
\<close>

definition normalize_text :: "unicode_db \<Rightarrow> ustr \<Rightarrow> ustr" where
  "normalize_text U text =
     (let text1 = py_lower U text;
          text2 = collapse_ws False text1;
          text3 = filter (\<lambda>c. is_word U c \<or> is_space c \<or> is_cjk c) text2
      in strip text3)"

text \<open>
  \<open>_compute_hash\<close>. The digest \<open>hashlib.md5(s.encode('utf-8')).hexdigest()\<close> is a library
  function of the normalised string and is the parameter \<open>md5\<close>.
\<close>

definition compute_hash :: "unicode_db \<Rightarrow> (ustr \<Rightarrow> 'd) \<Rightarrow> ustr \<Rightarrow> 'd" where
  "compute_hash U md5 text = md5 (normalize_text U text)"

text \<open>
  The body of the loop of \<open>_exact_dedup\<close>. The state is the dictionary \<open>seen_hashes\<close>, the
  list \<open>unique_chunks\<close> and the list \<open>duplicates\<close>.
\<close>

type_synonym 'd dedup_state = "('d \<rightharpoonup> Chunk) \<times> Chunk list \<times> (ustr \<times> ustr) list"

definition exact_dedup_step ::
  "unicode_db \<Rightarrow> (ustr \<Rightarrow> 'd) \<Rightarrow> 'd dedup_state \<Rightarrow> Chunk \<Rightarrow> 'd dedup_state" where
  "exact_dedup_step U md5 st chunk =
     (case st of (seen_hashes, unique_chunks, duplicates) \<Rightarrow>
        let content_hash = compute_hash U md5 (content chunk) in
        (case seen_hashes content_hash of
           Some existing \<Rightarrow>
             if length (content chunk) > length (content existing)
             then (seen_hashes(content_hash \<mapsto> chunk),
                   filter (\<lambda>c. chunk_id c \<noteq> chunk_id existing) unique_chunks @ [chunk],
                   duplicates @ [(chunk_id existing, chunk_id chunk)])
             else (seen_hashes, unique_chunks,
                   duplicates @ [(chunk_id chunk, chunk_id existing)])
         | None \<Rightarrow>
             (seen_hashes(content_hash \<mapsto> chunk), unique_chunks @ [chunk], duplicates)))"

definition exact_dedup_loop ::
  "unicode_db \<Rightarrow> (ustr \<Rightarrow> 'd) \<Rightarrow> 'd dedup_state \<Rightarrow> Chunk list \<Rightarrow> 'd dedup_state" where
  "exact_dedup_loop U md5 st chunks = foldl (exact_dedup_step U md5) st chunks"

definition exact_dedup ::
  "unicode_db \<Rightarrow> (ustr \<Rightarrow> 'd) \<Rightarrow> Chunk list \<Rightarrow> Chunk list \<times> (ustr \<times> ustr) list" where
  "exact_dedup U md5 chunks =
     (case exact_dedup_loop U md5 (Map.empty, [], []) chunks of
        (seen_hashes, unique_chunks, duplicates) \<Rightarrow> (unique_chunks, duplicates))"

text \<open>
  \<open>deduplicate\<close>. \<open>threshold or self.config.dedup_threshold\<close> takes the configured value
  when the argument is \<open>None\<close> or zero. The similarity phase is commented out in the source:
  \<open>similar_dups\<close> is the empty list.
\<close>

definition deduplicate ::
  "QualityConfig \<Rightarrow> unicode_db \<Rightarrow> (ustr \<Rightarrow> 'd) \<Rightarrow> Chunk list \<Rightarrow> rat option
     \<Rightarrow> Chunk list \<times> (ustr \<times> ustr) list" where
  "deduplicate cfg U md5 chunks threshold =
     (let threshold1 = (case threshold of
                          None \<Rightarrow> dedup_threshold cfg
                        | Some t \<Rightarrow> if t = 0 then dedup_threshold cfg else t);
          (chunks1, exact_dups) = exact_dedup U md5 chunks;
          similar_dups = [];
          all_dups = exact_dups @ similar_dups
      in (chunks1, all_dups))"

section \<open>The quality validator (\<open>quality/validator.py\<close>)\<close>

text \<open>
  The entries of \<open>issues\<close> are messages built with f-strings; each is modelled by a
  constructor that keeps the value the message prints. \<open>scores\<close> is a dictionary from the
  score's name to a float, idealised as a rational.
\<close>

datatype issue =
    EmptyContent
  | ContentTooShort nat
  | Garbled rat
  | Repetition rat
  | SpecialChars rat
  | MissingQuestion
  | QuestionTooShort
  | MissingAnswer
  | AnswerTooShort

record ValidationResult =
  vr_chunk_id :: ustr
  is_valid :: bool
  issues :: "issue list"
  scores :: "string \<rightharpoonup> rat"

text \<open>
  The character class of \<open>_check_garbled\<close>, which \<open>_check_special_chars\<close> negates: CJK
  ideographs, ASCII letters and digits, whitespace, the listed Chinese and English
  punctuation and symbols. The adjacent string literals of the source concatenate, so the
  quotes between them are not part of the class.
\<close>

definition is_normal_char :: "nat \<Rightarrow> bool" where
  "is_normal_char c =
     (is_cjk c \<or> (97 \<le> c \<and> c \<le> 122) \<or> (65 \<le> c \<and> c \<le> 90) \<or> (48 \<le> c \<and> c \<le> 57)
      \<or> is_space c
      \<or> c \<in> set [65292, 12290, 65281, 65311, 12289, 65307, 65306, 34,
                   65288, 65289, 12304, 12305, 12298, 12299]
      \<or> c \<in> set [44, 46, 33, 63, 59, 58, 39, 34, 40, 41, 91, 93, 123, 125, 60, 62]
      \<or> c \<in> set [45, 43, 42, 47, 61, 35, 64, 37, 38, 95, 126, 96]
      \<or> c \<in> set [10, 13, 9])"

definition check_garbled :: "ustr \<Rightarrow> rat" where
  "check_garbled text =
     (if text = [] then 0
      else let normal_chars = length (filter is_normal_char text);
               total_chars = length text
           in if total_chars = 0 then 0
              else 1 - of_nat normal_chars / of_nat total_chars)"

text \<open>
  \<open>re.findall(r'(.)\1{4,}', text)\<close>: one match for every maximal run of five or more
  copies of a character other than the newline (the repetition is greedy, and the search
  resumes after the run). \<open>findall\<close> returns the group, a string of one character.
\<close>

function single_repeat :: "ustr \<Rightarrow> ustr list" where
  "single_repeat [] = []"
| "single_repeat (c # s) =
     (if c \<noteq> 10 \<and> 4 \<le> length (takeWhile (\<lambda>x. x = c) s)
      then [c] # single_repeat (dropWhile (\<lambda>x. x = c) s)
      else single_repeat s)"
  by pat_completeness auto
termination
  by (relation "measure length") (auto simp: length_dropWhile_le less_Suc_eq_le)

text \<open>\<open>pat in s\<close> and \<open>s.count(pat)\<close> (occurrences that do not overlap, left to right).\<close>

fun contains :: "ustr \<Rightarrow> ustr \<Rightarrow> bool" where
  "contains pat [] = (pat = [])"
| "contains pat (c # s) = (take (length pat) (c # s) = pat \<or> contains pat s)"

function py_count :: "ustr \<Rightarrow> ustr \<Rightarrow> nat" where
  "py_count pat s =
     (if pat = [] then length s + 1
      else if length s < length pat then 0
      else if take (length pat) s = pat then 1 + py_count pat (drop (length pat) s)
      else py_count pat (tl s))"
  by pat_completeness auto
termination
  by (relation "measure (\<lambda>(pat, s). length s)") (auto simp: neq_Nil_conv)

text \<open>
  The inner loop of \<open>_check_repetition\<close> for one window length, over the indices \<open>i\<close> of
  \<open>range(len(text) - length * 2)\<close>: the first window that occurs doubled and more than
  twice in the rest of the text is credited, and the loop breaks.
\<close>

fun phrase_repeat :: "nat \<Rightarrow> ustr \<Rightarrow> nat list \<Rightarrow> nat" where
  "phrase_repeat len text [] = 0"
| "phrase_repeat len text (i # rest) =
     (let pattern = take len (drop i text) in
      if contains (pattern @ pattern) (drop i text)
      then (let count = py_count pattern (drop i text) in
            if count > 2 then length pattern * (count - 1)
            else phrase_repeat len text rest)
      else phrase_repeat len text rest)"

definition check_repetition :: "ustr \<Rightarrow> rat" where
  "check_repetition text =
     (if text = [] \<or> length text < 20 then 0
      else let total_len = length text;
               repeated_len0 = sum_list (map (\<lambda>m. length m * 4) (single_repeat text));
               repeated_len = repeated_len0
                  + sum_list (map (\<lambda>len. phrase_repeat len text [0 ..< length text - len * 2])
                       [3, 5, 10])
           in min (of_nat repeated_len / of_nat total_len) 1)"

definition check_special_chars :: "ustr \<Rightarrow> rat" where
  "check_special_chars text =
     (if text = [] then 0
      else of_nat (length (filter (\<lambda>c. \<not> is_normal_char c) text)) / of_nat (length text))"

definition check_qa_completeness :: "Chunk \<Rightarrow> issue list" where
  "check_qa_completeness chunk =
     (case question chunk of
        None \<Rightarrow> [MissingQuestion]
      | Some q \<Rightarrow> if q = [] then [MissingQuestion]
                  else if length q < 5 then [QuestionTooShort] else [])
     @ (case answer chunk of
        None \<Rightarrow> [MissingAnswer]
      | Some a \<Rightarrow> if a = [] then [MissingAnswer]
                  else if length a < 10 then [AnswerTooShort] else [])"

definition calculate_overall_score :: "(string \<rightharpoonup> rat) \<Rightarrow> issue list \<Rightarrow> rat" where
  "calculate_overall_score scs iss =
     (let base0 = 1;
          base1 = (case scs ''garbled_ratio'' of Some g \<Rightarrow> base0 - g * (5 / 10) | None \<Rightarrow> base0);
          base2 = (case scs ''repetition_ratio'' of Some r \<Rightarrow> base1 - r * (3 / 10) | None \<Rightarrow> base1);
          base3 = (case scs ''special_char_ratio'' of Some s \<Rightarrow> base2 - s * (2 / 10) | None \<Rightarrow> base2);
          base4 = base3 - of_nat (length iss) * (1 / 10)
      in max 0 (min 1 base4))"

definition validate_chunk :: "QualityConfig \<Rightarrow> Chunk \<Rightarrow> ValidationResult" where
  "validate_chunk cfg chunk =
     (let text = content chunk in
      if text = [] \<or> strip text = []
      then \<lparr> vr_chunk_id = chunk_id chunk, is_valid = False, issues = [EmptyContent],
             scores = [''overall'' \<mapsto> 0] \<rparr>
      else
        let issues1 = (if int (length text) < min_content_length cfg
                       then [ContentTooShort (length text)] else []);
            garbled_ratio = check_garbled text;
            scores1 = [''garbled_ratio'' \<mapsto> garbled_ratio];
            issues2 = issues1 @ (if garbled_ratio > garbled_threshold cfg
                                 then [Garbled garbled_ratio] else []);
            repetition_ratio = check_repetition text;
            scores2 = scores1(''repetition_ratio'' \<mapsto> repetition_ratio);
            issues3 = issues2 @ (if repetition_ratio > 5 / 10
                                 then [Repetition repetition_ratio] else []);
            special_char_ratio = check_special_chars text;
            scores3 = scores2(''special_char_ratio'' \<mapsto> special_char_ratio);
            issues4 = issues3 @ (if special_char_ratio > 3 / 10
                                 then [SpecialChars special_char_ratio] else []);
            issues5 = issues4 @ (if chunk_type chunk = u ''qa''
                                 then check_qa_completeness chunk else []);
            overall_score = calculate_overall_score scores3 issues5;
            scores4 = scores3(''overall'' \<mapsto> overall_score);
            valid = (length issues5 = 0 \<or> overall_score \<ge> 6 / 10)
        in \<lparr> vr_chunk_id = chunk_id chunk, is_valid = valid, issues = issues5,
             scores = scores4 \<rparr>)"

text \<open>The string of Scenario D: ten times U+554A.\<close>

definition ten_a :: ustr where
  "ten_a = [21834, 21834, 21834, 21834, 21834, 21834, 21834, 21834, 21834, 21834]"

text \<open>\<open>Chunk(chunk_id=i, content=c)\<close>: \<open>chunk_type\<close> defaults to \<open>'qa'\<close>.\<close>

definition default_chunk :: "ustr \<Rightarrow> ustr \<Rightarrow> Chunk" where
  "default_chunk i c = \<lparr> chunk_id = i, content = c, question = None, answer = None,
      chunk_type = u ''qa'', source_file = None, page_num = None, question_num = None,
      metadata = [] \<rparr>"

text \<open>Twenty carets: no character of it is in the allow-list.\<close>

definition carets :: ustr where
  "carets = [94, 94, 94, 94, 94, 94, 94, 94, 94, 94, 94, 94, 94, 94, 94, 94, 94, 94, 94, 94]"

section \<open>The Q&A parser (\<open>parsers/qa_parser.py\<close>)\<close>

text \<open>
  The dataclass \<open>QAPair\<close>; its fields carry the prefix \<open>qa_\<close> where \<open>Chunk\<close> has a field
  of the same name. \<open>full_text\<close> is \<open>f"{question}\n\n{answer}"\<close>.
\<close>

record QAPair =
  qa_question :: ustr
  qa_answer :: ustr
  qa_question_num :: "int option"
  qa_source_file :: "ustr option"
  qa_page_num :: "int option"
  start_pos :: nat
  end_pos :: nat

definition full_text :: "QAPair \<Rightarrow> ustr" where
  "full_text qa = qa_question qa @ [10, 10] @ qa_answer qa"

definition qa_char_count :: "QAPair \<Rightarrow> nat" where
  "qa_char_count qa = length (full_text qa)"

text \<open>
  \<open>merge_short_qas\<close>. The loop keeps the list \<open>merged\<close> and the pair \<open>current\<close>, which is
  \<open>None\<close> before the first pair. After a non-empty loop \<open>current\<close> is a pair, and an
  instance of a dataclass is true.
\<close>

definition merge_step :: "int \<Rightarrow> QAPair list \<times> QAPair option \<Rightarrow> QAPair \<Rightarrow> QAPair list \<times> QAPair option" where
  "merge_step min_length st qa =
     (case st of (merged, current) \<Rightarrow>
        (case current of
           None \<Rightarrow> (merged, Some qa)
         | Some cur \<Rightarrow>
             if int (qa_char_count cur) < min_length
             then (merged,
                   Some \<lparr> qa_question = qa_question cur,
                          qa_answer = qa_answer cur @ [10, 10] @ qa_question qa @ [10] @ qa_answer qa,
                          qa_question_num = qa_question_num cur,
                          qa_source_file = qa_source_file cur,
                          qa_page_num = qa_page_num cur,
                          start_pos = start_pos cur,
                          end_pos = end_pos qa \<rparr>)
             else (merged @ [cur], Some qa)))"

definition merge_short_qas :: "QAPair list \<Rightarrow> int \<Rightarrow> QAPair list" where
  "merge_short_qas qa_pairs min_length =
     (if qa_pairs = [] then []
      else (case foldl (merge_step min_length) ([], None) qa_pairs of
              (merged, current) \<Rightarrow>
                (case current of Some cur \<Rightarrow> merged @ [cur] | None \<Rightarrow> merged)))"

text \<open>
  The same pass as a recursion on the list, with \<open>current\<close> as an argument: the form in
  which the loop is compared with the claim.
\<close>

definition merge_pair :: "QAPair \<Rightarrow> QAPair \<Rightarrow> QAPair" where
  "merge_pair cur qa =
     \<lparr> qa_question = qa_question cur,
       qa_answer = qa_answer cur @ [10, 10] @ qa_question qa @ [10] @ qa_answer qa,
       qa_question_num = qa_question_num cur,
       qa_source_file = qa_source_file cur,
       qa_page_num = qa_page_num cur,
       start_pos = start_pos cur,
       end_pos = end_pos qa \<rparr>"

fun merge_from :: "int \<Rightarrow> QAPair \<Rightarrow> QAPair list \<Rightarrow> QAPair list" where
  "merge_from m cur [] = [cur]"
| "merge_from m cur (x # xs) =
     (if int (qa_char_count cur) < m then merge_from m (merge_pair cur x) xs
      else cur # merge_from m x xs)"

text \<open>Three pairs for the examples.\<close>

definition qa1 :: QAPair where
  "qa1 = \<lparr> qa_question = u ''Q1?'', qa_answer = u ''A1'', qa_question_num = Some 1,
           qa_source_file = None, qa_page_num = None, start_pos = 0, end_pos = 7 \<rparr>"

definition qa2 :: QAPair where
  "qa2 = \<lparr> qa_question = u ''Q2?'', qa_answer = u ''A2'', qa_question_num = Some 2,
           qa_source_file = None, qa_page_num = None, start_pos = 7, end_pos = 14 \<rparr>"

definition qa3 :: QAPair where
  "qa3 = \<lparr> qa_question = u ''Q3?'', qa_answer = u ''A long answer'',
           qa_question_num = Some 3, qa_source_file = None, qa_page_num = None,
           start_pos = 14, end_pos = 32 \<rparr>"

text \<open>
  The question patterns of \<open>_compile_patterns\<close>, in the order of the source, each with
  its number of groups. All are compiled with \<open>re.MULTILINE\<close>.
\<close>

definition num_punct :: "nat list" where
  "num_punct = [46, 12289, 65306, 58]"

definition qmarks :: "nat list" where
  "qmarks = [63, 65311]"

definition heuristic_keywords :: "ustr list" where
  "heuristic_keywords =
     [[20160, 20040], [26377, 20160, 20040], [26377, 21738, 20123], [26159, 20160, 20040],
      [22914, 20309], [24590, 20040], [24590, 26679], [20026, 20160, 20040],
      [26159, 21542], [21306, 21035], [20248, 32570, 28857], [29305, 28857],
      [21407, 29702], [20316, 29992], [27969, 31243], [27493, 39588],
      [27010, 24565], [23450, 20041], [26041, 27861], [21407, 22240]]"

definition question_patterns :: "unicode_db \<Rightarrow> (rx \<times> nat) list" where
  "question_patterns U =
     [(rx_seq [Bol, Rep (\<lambda>x. x = 35) 1 (Some 4) True, ws_star, Grp 1 (Rep (is_decimal U) 1 None True),
               opt num_punct, ws_star, Grp 2 dot_plus, Eol], 2),
      (rx_seq [Bol, Rep (\<lambda>x. x = 35) 1 (Some 6) True, ws_star,
               Grp 1 (Seq dot_plus_lazy (one_of qmarks)), ws_star, Eol], 1),
      (rx_seq [Bol, Grp 1 (Rep (is_decimal U) 1 None True), one_of num_punct, ws_star,
               Grp 2 dot_plus_lazy, rx_alt [lit 63, lit 65311, Eol]], 2),
      (rx_seq [Bol, one_of [81, 113], ws_star, Grp 1 (Rep (is_decimal U) 0 None True),
               opt num_punct, ws_star, Grp 2 dot_plus, Eol], 2),
      (rx_seq [Bol, lit 38382, ws_star, Grp 1 (Rep (is_decimal U) 0 None True),
               opt num_punct, ws_star, Grp 2 dot_plus, Eol], 2),
      (rx_seq [Bol, lit 12304, Rep (\<lambda>x. x \<in> set [38382, 39064]) 0 None True,
               Grp 1 (Rep (is_decimal U) 0 None True), lit 12305, ws_star, Grp 2 dot_plus, Eol], 2),
      (rx_seq [Bol, lit 42, lit 42, Grp 1 (Rep (is_decimal U) 1 None True), one_of [46, 12289],
               ws_star, Grp 2 dot_plus_lazy, lit 42, lit 42], 2),
      (rx_seq [Bol, ws_star, one_of [45, 42], ws_star,
               Grp 1 (Seq dot_plus_lazy (one_of qmarks)), ws_star, Eol], 1),
      (rx_seq [Bol, Look (Seq (Rep dot 2 (Some 120) True) Eol), Rep dot 0 None True,
               rx_alt (map rx_str heuristic_keywords), ws_star, Eol], 0)]"

text \<open>
  \<open>step_marker_pattern\<close>, compiled with \<open>re.IGNORECASE\<close> only. Under that flag \<open>s\<close>
  also matches U+017F; the other letters of \<open>step\<close> match their two cases.
\<close>

definition step_class :: "unicode_db \<Rightarrow> nat \<Rightarrow> bool" where
  "step_class U c = ((19968 \<le> c \<and> c \<le> 21313) \<or> is_decimal U c)"

definition step_marker_pattern :: "unicode_db \<Rightarrow> rx" where
  "step_marker_pattern U =
     Seq Start (rx_alt
       [rx_seq [lit 31532, Rep (step_class U) 1 None True, lit 27493],
        rx_seq [lit 27493, lit 39588, ws_star, Rep (step_class U) 1 None True],
        rx_seq [one_of [115, 83, 383], one_of [116, 84], one_of [101, 69], one_of [112, 80],
                ws_star, Rep (is_decimal U) 1 None True]])"

text \<open>\<open>answer_start_patterns\<close>, all compiled with \<open>re.MULTILINE\<close>, and \<open>_clean_answer_text\<close>.\<close>

definition answer_punct :: "nat list" where
  "answer_punct = [46, 12289, 58, 65306]"

definition answer_start_patterns :: "rx list" where
  "answer_start_patterns =
     [rx_seq [Bol, one_of [65, 97], ws_star, one_of answer_punct, ws_star],
      rx_seq [Bol, lit 31572, ws_star, one_of answer_punct, ws_star],
      rx_seq [Bol, lit 12304, lit 31572, opt [26696], lit 12305, ws_star],
      rx_seq [Bol, lit 35299, one_of [31572, 26512], ws_star, opt answer_punct, ws_star]]"

definition clean_answer_text :: "ustr \<Rightarrow> ustr" where
  "clean_answer_text text =
     (let text1 = foldl (\<lambda>t pattern. rx_sub pattern [] t) text answer_start_patterns;
          text2 = dropWhile (\<lambda>c. c = 10) text1
      in strip text2)"

text \<open>
  \<open>_normalize_text\<close> of the parser: \<open>\r\n\<close> and \<open>\r\<close> become \<open>\n\<close>, three or more
  newlines become two, and the text is stripped.
\<close>

fun replace_crlf :: "ustr \<Rightarrow> ustr" where
  "replace_crlf (a # b # s) = (if a = 13 \<and> b = 10 then 10 # replace_crlf s else a # replace_crlf (b # s))"
| "replace_crlf s = s"

definition parser_normalize_text :: "ustr \<Rightarrow> ustr" where
  "parser_normalize_text text =
     (let text1 = map (\<lambda>c. if c = 13 then 10 else c) (replace_crlf text);
          text2 = rx_sub (Rep (\<lambda>x. x = 10) 3 None True) [10, 10] text1
      in strip text2)"

text \<open>
  An entry of \<open>question_positions\<close>. \<open>mk_position\<close> is the body of the inner loop of
  \<open>_parse_by_question_markers\<close> for one match: \<open>Inr None\<close> is the \<open>continue\<close> of a step
  marker. A group that took no part in the match is \<open>None\<close> in Python: \<open>match\<close> on it
  raises \<open>TypeError\<close>. \<open>int\<close> is called when \<open>num_str\<close> is not empty and
  \<open>num_str.isdigit()\<close> holds.
\<close>

record qpos =
  q_start :: nat
  q_end :: nat
  q_num :: "int option"
  q_question :: ustr
  q_question_text :: ustr

definition mk_position :: "unicode_db \<Rightarrow> ustr \<Rightarrow> nat \<Rightarrow> rmatch \<Rightarrow> py_error + qpos option" where
  "mk_position U t ngroups m =
     (let num_str = (if 2 \<le> ngroups then group_str t m 1 else Some []);
          question_text = (if 2 \<le> ngroups then group_str t m 2
                           else if 1 \<le> ngroups then group_str t m 1 else Some [])
      in case (case num_str of
                 None \<Rightarrow> Inr None
               | Some ns \<Rightarrow> if ns \<noteq> [] \<and> list_all (is_digit U) ns
                            then map_sum id Some (py_int U ns) else Inr None) of
           Inl e \<Rightarrow> Inl e
         | Inr qnum \<Rightarrow>
             (case question_text of
                None \<Rightarrow> Inl TypeError
              | Some qt \<Rightarrow>
                  if match_at (step_marker_pattern U) qt 0 \<noteq> None then Inr None
                  else Inr (Some \<lparr> q_start = m_start m, q_end = m_end m, q_num = qnum,
                                   q_question = strip (slice t (m_start m) (m_end m)),
                                   q_question_text = strip qt \<rparr>)))"

definition question_positions :: "unicode_db \<Rightarrow> ustr \<Rightarrow> py_error + qpos list" where
  "question_positions U t =
     collect (concat (map (\<lambda>(pattern, ngroups). map (mk_position U t ngroups) (finditer pattern t))
                          (question_patterns U)))"

text \<open>
  The sort is stable, as \<open>list.sort\<close> is. \<open>unique_positions\<close> is the loop that keeps a
  position when it starts at or after \<open>last_end\<close>, which starts at \<open>-1\<close>;
  \<open>build_pairs\<close> is the loop over \<open>enumerate(unique_positions)\<close>.
\<close>

fun unique_positions :: "int \<Rightarrow> qpos list \<Rightarrow> qpos list" where
  "unique_positions last_end [] = []"
| "unique_positions last_end (pos # rest) =
     (if int (q_start pos) \<ge> last_end then pos # unique_positions (int (q_end pos)) rest
      else unique_positions last_end rest)"

fun build_pairs :: "ustr \<Rightarrow> qpos list \<Rightarrow> QAPair list" where
  "build_pairs t [] = []"
| "build_pairs t (pos # rest) =
     (let answer_start = q_end pos;
          answer_end = (case rest of [] \<Rightarrow> length t | nxt # _ \<Rightarrow> q_start nxt);
          answer_text = clean_answer_text (strip (slice t answer_start answer_end))
      in (if answer_text \<noteq> []
          then [\<lparr> qa_question = q_question pos, qa_answer = answer_text,
                   qa_question_num = q_num pos, qa_source_file = None, qa_page_num = None,
                   start_pos = q_start pos, end_pos = answer_end \<rparr>]
          else []) @ build_pairs t rest)"

definition parse_by_question_markers :: "unicode_db \<Rightarrow> ustr \<Rightarrow> py_error + QAPair list" where
  "parse_by_question_markers U t =
     (case question_positions U t of
        Inl e \<Rightarrow> Inl e
      | Inr qps \<Rightarrow>
          if qps = [] then Inr []
          else Inr (build_pairs t (unique_positions (- 1) (sort_key q_start qps))))"

text \<open>
  \<open>_parse_by_code_blocks\<close>. Its pattern is compiled with \<open>re.MULTILINE | re.DOTALL\<close>, so
  \<open>.\<close> is any character. \<open>strip\<close> on a group that is \<open>None\<close> raises
  \<open>AttributeError\<close>.
\<close>

definition code_block_pattern :: "unicode_db \<Rightarrow> rx" where
  "code_block_pattern U =
     rx_seq [Bol,
             Grp 1 (rx_seq [Rep (\<lambda>x. x = 35) 1 (Some 4) True, ws_star,
                            Rep (is_decimal U) 0 None True, opt [46, 12289, 44, 65292], ws_star,
                            Rep any_char 1 None False]),
             Eol, ws_star, lit 96, lit 96, lit 96, Rep (is_word U) 0 None True, ws_star,
             Grp 2 (Rep any_char 1 None False), lit 96, lit 96, lit 96]"

definition code_block_pair :: "unicode_db \<Rightarrow> ustr \<Rightarrow> rmatch \<Rightarrow> py_error + QAPair option" where
  "code_block_pair U t m =
     (case (group_str t m 1, group_str t m 2) of
        (Some g1, Some g2) \<Rightarrow>
          (let qtext = strip g1; atext = strip g2 in
           case (case finditer (Grp 1 (Rep (is_decimal U) 1 None True)) qtext of
                   [] \<Rightarrow> Inr None
                 | nm # _ \<Rightarrow>
                     (case group_str qtext nm 1 of
                        None \<Rightarrow> Inl TypeError
                      | Some ds \<Rightarrow> map_sum id Some (py_int U ds))) of
             Inl e \<Rightarrow> Inl e
           | Inr qnum \<Rightarrow>
               Inr (Some \<lparr> qa_question = qtext, qa_answer = atext,
                           qa_question_num = qnum, qa_source_file = None,
                           qa_page_num = None, start_pos = m_start m, end_pos = m_end m \<rparr>))
      | _ \<Rightarrow> Inl AttributeError)"

definition parse_by_code_blocks :: "unicode_db \<Rightarrow> ustr \<Rightarrow> py_error + QAPair list" where
  "parse_by_code_blocks U t =
     collect (map (code_block_pair U t) (finditer (code_block_pattern U) t))"

text \<open>
  \<open>_parse_by_paragraphs\<close>. The state of its loop is the record \<open>para_state\<close>;
  \<open>ps_flush\<close> appends the pending pair when there is a question with answer parts.
\<close>

definition paragraph_sep :: rx where
  "paragraph_sep = rx_seq [lit 10, ws_star, lit 10]"

definition is_question :: "unicode_db \<Rightarrow> ustr \<Rightarrow> bool" where
  "is_question U para =
     ((para \<noteq> [] \<and> last para = 63) \<or> (para \<noteq> [] \<and> last para = 65311)
      \<or> match_at (rx_seq [Start, Rep (is_decimal U) 1 None True, one_of [46, 12289]]) para 0 \<noteq> None
      \<or> match_at (rx_seq [Start, Rep (\<lambda>x. x = 35) 1 (Some 4) True, ws_star,
                           Rep (is_decimal U) 1 None True]) para 0 \<noteq> None)"

record para_state =
  ps_pairs :: "QAPair list"
  ps_question :: "ustr option"
  ps_answer_parts :: "ustr list"
  ps_start :: nat
  ps_position :: nat

definition join_paragraphs :: "ustr list \<Rightarrow> ustr" where
  "join_paragraphs parts = (case parts of [] \<Rightarrow> [] | p # ps \<Rightarrow> foldl (\<lambda>acc q. acc @ [10, 10] @ q) p ps)"

definition ps_flush :: "para_state \<Rightarrow> QAPair list" where
  "ps_flush st =
     (case ps_question st of
        Some q \<Rightarrow>
          if q \<noteq> [] \<and> ps_answer_parts st \<noteq> []
          then ps_pairs st @ [\<lparr> qa_question = q, qa_answer = join_paragraphs (ps_answer_parts st),
                  qa_question_num = None, qa_source_file = None, qa_page_num = None,
                  start_pos = ps_start st, end_pos = ps_position st \<rparr>]
          else ps_pairs st
      | None \<Rightarrow> ps_pairs st)"

definition para_step :: "unicode_db \<Rightarrow> para_state \<Rightarrow> ustr \<Rightarrow> para_state" where
  "para_step U st para0 =
     (let para = strip para0 in
      if para = [] then st\<lparr> ps_position := ps_position st + 2 \<rparr>
      else
        (if is_question U para
         then st\<lparr> ps_pairs := ps_flush st, ps_question := Some para, ps_answer_parts := [],
                 ps_start := ps_position st, ps_position := ps_position st + length para + 2 \<rparr>
         else (if ps_question st \<noteq> None \<and> ps_question st \<noteq> Some []
               then st\<lparr> ps_answer_parts := ps_answer_parts st @ [para],
                       ps_position := ps_position st + length para + 2 \<rparr>
               else st\<lparr> ps_position := ps_position st + length para + 2 \<rparr>)))"

definition parse_by_paragraphs :: "unicode_db \<Rightarrow> ustr \<Rightarrow> QAPair list" where
  "parse_by_paragraphs U t =
     ps_flush (foldl (para_step U)
        \<lparr> ps_pairs = [], ps_question = None, ps_answer_parts = [], ps_start = 0, ps_position = 0 \<rparr>
        (rx_split paragraph_sep t))"

text \<open>
  \<open>parse\<close>. An exception raised by a strategy leaves \<open>parse\<close>, so the result is an error
  or the list.
\<close>

definition parse :: "unicode_db \<Rightarrow> ustr \<Rightarrow> ustr option \<Rightarrow> int option \<Rightarrow> py_error + QAPair list" where
  "parse U text sf pn =
     (if text = [] \<or> strip text = [] then Inr []
      else
        let t = parser_normalize_text text in
        case parse_by_question_markers U t of
          Inl e \<Rightarrow> Inl e
        | Inr r1 \<Rightarrow>
            (case (if r1 = [] then parse_by_code_blocks U t else Inr r1) of
               Inl e \<Rightarrow> Inl e
             | Inr r2 \<Rightarrow>
                 (let r3 = (if r2 = [] then parse_by_paragraphs U t else r2)
                  in Inr (map (\<lambda>qa. qa\<lparr> qa_source_file := sf, qa_page_num := pn \<rparr>) r3))))"


section \<open>The chunker\<close>

text \<open>
  \<open>ChunkerConfig\<close> of \<open>config/settings.py\<close>: the three sizes that \<open>parsers/chunker.py\<close>
  reads (its pattern lists are not used there). The fields are Python integers.
\<close>

record ChunkerConfig =
  max_chunk_size :: int
  min_chunk_size :: int
  overlap_size :: int

definition default_chunker_config :: ChunkerConfig where
  "default_chunker_config = \<lparr> max_chunk_size = 1500, min_chunk_size = 50, overlap_size = 100 \<rparr>"

text \<open>
  Indexing and slicing of a string with Python integers: a negative index counts from the
  end, \<open>t[i]\<close> raises \<open>IndexError\<close> outside \<open>-len(t) \<le> i < len(t)\<close>, and the bounds of a
  slice are clamped.
\<close>

definition py_index :: "ustr \<Rightarrow> int \<Rightarrow> py_error + nat" where
  "py_index t i =
     (let n = int (length t) in
      if 0 \<le> i \<and> i < n then Inr (t ! nat i)
      else if - n \<le> i \<and> i < 0 then Inr (t ! nat (n + i))
      else Inl IndexError)"

definition clamp :: "nat \<Rightarrow> int \<Rightarrow> nat" where
  "clamp n i = (if i < 0 then nat (max 0 (int n + i)) else min (nat i) n)"

definition py_slice :: "ustr \<Rightarrow> int \<Rightarrow> int \<Rightarrow> ustr" where
  "py_slice t a b = take (clamp (length t) b - clamp (length t) a) (drop (clamp (length t) a) t)"

definition py_slice_from :: "ustr \<Rightarrow> int \<Rightarrow> ustr" where
  "py_slice_from t a = drop (clamp (length t) a) t"

text \<open>\<open>range(a, b, -1)\<close>: \<open>a, a - 1, ..., b + 1\<close>.\<close>

definition range_down :: "int \<Rightarrow> int \<Rightarrow> int list" where
  "range_down a b = rev [b + 1..a]"

text \<open>\<open>x or y\<close> on optional strings: \<open>None\<close> and the empty string are false.\<close>

definition py_or :: "ustr option \<Rightarrow> ustr option \<Rightarrow> ustr option" where
  "py_or x y = (case x of None \<Rightarrow> y | Some s \<Rightarrow> if s = [] then y else Some s)"

text \<open>
  \<open>_generate_chunk_id\<close>: the counter is the state of the chunker; it starts at 0 and is
  only incremented, so it is a natural number. \<open>{n:06d}\<close> pads the decimal digits of \<open>n\<close>
  with zeros to six characters.
\<close>

fun dec_digits :: "nat \<Rightarrow> ustr" where
  "dec_digits n = (if n < 10 then [48 + n] else dec_digits (n div 10) @ [48 + n mod 10])"

declare dec_digits.simps [simp del]

definition format_06d :: "nat \<Rightarrow> ustr" where
  "format_06d n = replicate (6 - length (dec_digits n)) 48 @ dec_digits n"

definition generate_chunk_id :: "ustr \<Rightarrow> nat \<Rightarrow> ustr \<times> nat" where
  "generate_chunk_id pre counter = (pre @ [95] @ format_06d (counter + 1), counter + 1)"

text \<open>
  \<open>_get_overlap_text\<close>. The loop over the reversed sentences stops at the first sentence
  that does not fit.
\<close>

definition sentence_end :: "nat list" where
  "sentence_end = [12290, 65281, 65311, 46, 33, 63]"

fun overlap_loop :: "int \<Rightarrow> ustr list \<Rightarrow> ustr \<Rightarrow> ustr" where
  "overlap_loop ov [] overlap = overlap"
| "overlap_loop ov (sent # sents) overlap =
     (if int (length overlap) + int (length sent) \<le> ov
      then overlap_loop ov sents (sent @ [12290] @ overlap)
      else overlap)"

definition get_overlap_text :: "ChunkerConfig \<Rightarrow> ustr list \<Rightarrow> ustr" where
  "get_overlap_text cfg parts =
     (if parts = [] then []
      else let last_part = last parts in
        if int (length last_part) \<le> overlap_size cfg then last_part
        else let sentences = rx_split (one_of sentence_end) last_part;
                 overlap = overlap_loop (overlap_size cfg) (rev sentences) []
             in if strip overlap \<noteq> [] then strip overlap
                else py_slice_from last_part (- overlap_size cfg))"

text \<open>
  \<open>_split_long_qa\<close>. The state of its loop: the chunks made so far, \<open>current_content\<close>,
  \<open>current_answer_parts\<close> and the counter. The continuation marker is
  \<open>"\n\n"\<close>, U+FF08, U+7EED, U+FF09, \<open>"\n\n"\<close>.
\<close>

record split_state =
  ss_chunks :: "Chunk list"
  ss_content :: ustr
  ss_parts :: "ustr list"
  ss_counter :: nat

definition continuation :: ustr where
  "continuation = [10, 10, 65288, 32493, 65289, 10, 10]"

definition split_chunk :: "QAPair \<Rightarrow> ustr option \<Rightarrow> split_state \<Rightarrow> (ustr \<times> pyval) list \<Rightarrow> Chunk" where
  "split_chunk qa sf st md =
     \<lparr> chunk_id = fst (generate_chunk_id (u ''qa'') (ss_counter st)),
       content = strip (ss_content st),
       question = Some (qa_question qa),
       answer = Some (join_paragraphs (ss_parts st)),
       chunk_type = u ''qa'',
       source_file = py_or sf (qa_source_file qa),
       page_num = qa_page_num qa,
       question_num = qa_question_num qa,
       metadata = md \<rparr>"

definition split_step :: "ChunkerConfig \<Rightarrow> QAPair \<Rightarrow> ustr option \<Rightarrow> split_state \<Rightarrow> ustr \<Rightarrow> split_state" where
  "split_step cfg qa sf st para0 =
     (let para = strip para0 in
      if para = [] then st
      else
        let test_content = ss_content st @ para in
        if int (length test_content) > max_chunk_size cfg \<and> ss_parts st \<noteq> [] then
          let chunk = split_chunk qa sf st
                [(u ''is_split'', PyBool True), (u ''part'', PyInt (int (length (ss_chunks st)) + 1))];
              overlap = get_overlap_text cfg (ss_parts st)
          in \<lparr> ss_chunks = ss_chunks st @ [chunk],
               ss_content = qa_question qa @ continuation @ overlap @ para @ [10, 10],
               ss_parts = [para],
               ss_counter = snd (generate_chunk_id (u ''qa'') (ss_counter st)) \<rparr>
        else st \<lparr> ss_content := ss_content st @ para @ [10, 10],
                  ss_parts := ss_parts st @ [para] \<rparr>)"

definition split_long_qa :: "ChunkerConfig \<Rightarrow> QAPair \<Rightarrow> ustr option \<Rightarrow> nat \<Rightarrow> Chunk list \<times> nat" where
  "split_long_qa cfg qa sf counter =
     (let paragraphs = rx_split paragraph_sep (qa_answer qa);
          st = foldl (split_step cfg qa sf)
                 \<lparr> ss_chunks = [], ss_content = qa_question qa @ [10, 10], ss_parts = [],
                   ss_counter = counter \<rparr> paragraphs
      in if ss_parts st \<noteq> [] then
           (ss_chunks st @
              [split_chunk qa sf st
                 [(u ''is_split'', PyBool (ss_chunks st \<noteq> [])),
                  (u ''part'', if ss_chunks st \<noteq> [] then PyInt (int (length (ss_chunks st)) + 1)
                              else PyNone)]],
            snd (generate_chunk_id (u ''qa'') (ss_counter st)))
         else (ss_chunks st, ss_counter st))"

text \<open>\<open>chunk_qa_pairs\<close>: the loop threads the counter.\<close>

definition qa_chunk :: "QAPair \<Rightarrow> ustr option \<Rightarrow> nat \<Rightarrow> Chunk" where
  "qa_chunk qa sf counter =
     \<lparr> chunk_id = fst (generate_chunk_id (u ''qa'') counter),
       content = full_text qa,
       question = Some (qa_question qa),
       answer = Some (qa_answer qa),
       chunk_type = u ''qa'',
       source_file = py_or sf (qa_source_file qa),
       page_num = qa_page_num qa,
       question_num = qa_question_num qa,
       metadata = [] \<rparr>"

definition chunk_qa_step :: "ChunkerConfig \<Rightarrow> ustr option \<Rightarrow> Chunk list \<times> nat \<Rightarrow> QAPair \<Rightarrow> Chunk list \<times> nat" where
  "chunk_qa_step cfg sf acc qa =
     (if int (qa_char_count qa) > max_chunk_size cfg then
        (fst acc @ fst (split_long_qa cfg qa sf (snd acc)), snd (split_long_qa cfg qa sf (snd acc)))
      else (fst acc @ [qa_chunk qa sf (snd acc)], snd (generate_chunk_id (u ''qa'') (snd acc))))"

definition chunk_qa_pairs :: "ChunkerConfig \<Rightarrow> QAPair list \<Rightarrow> ustr option \<Rightarrow> nat \<Rightarrow> Chunk list \<times> nat" where
  "chunk_qa_pairs cfg qa_pairs sf counter = foldl (chunk_qa_step cfg sf) ([], counter) qa_pairs"

text \<open>
  \<open>_force_split\<close>. \<open>start\<close> and \<open>end\<close> are Python integers: with an overlap larger than a
  piece \<open>start\<close> does not advance, or becomes negative. The \<open>while\<close> loop need not
  terminate, so the model takes fuel and returns \<open>None\<close> when it runs out; \<open>text[i]\<close> may
  raise \<open>IndexError\<close>.
\<close>

definition break_chars :: "nat list" where
  "break_chars = [12290, 65281, 65311, 46, 33, 63, 10]"

fun find_break :: "ustr \<Rightarrow> int list \<Rightarrow> py_error + int option" where
  "find_break t [] = Inr None"
| "find_break t (i # rest) =
     (case py_index t i of
        Inl e \<Rightarrow> Inl e
      | Inr c \<Rightarrow> if c \<in> set break_chars then Inr (Some i) else find_break t rest)"

definition text_chunk :: "ustr \<Rightarrow> ustr \<Rightarrow> ustr option \<Rightarrow> int option \<Rightarrow> (ustr \<times> pyval) list \<Rightarrow> nat \<Rightarrow> Chunk" where
  "text_chunk pre c sf pn md counter =
     \<lparr> chunk_id = fst (generate_chunk_id pre counter),
       content = c,
       question = None,
       answer = None,
       chunk_type = u ''text'',
       source_file = sf,
       page_num = pn,
       question_num = None,
       metadata = md \<rparr>"

fun force_split_loop ::
  "nat \<Rightarrow> ChunkerConfig \<Rightarrow> ustr \<Rightarrow> ustr option \<Rightarrow> int option \<Rightarrow> int \<Rightarrow> Chunk list \<times> nat
     \<Rightarrow> (py_error + Chunk list \<times> nat) option" where
  "force_split_loop 0 cfg text sf pn start acc = None"
| "force_split_loop (Suc fuel) cfg text sf pn start acc =
     (if start < int (length text) then
        let end0 = start + max_chunk_size cfg in
        case (if end0 < int (length text)
              then find_break text (range_down end0 (max (start + max_chunk_size cfg div 2) start))
              else Inr None) of
          Inl e \<Rightarrow> Some (Inl e)
        | Inr b \<Rightarrow>
            let end1 = (case b of Some i \<Rightarrow> i + 1 | None \<Rightarrow> end0);
                chunk_text = py_slice text start end1;
                chunk = text_chunk (u ''text'') (strip chunk_text) sf pn
                          [(u ''force_split'', PyBool True)] (snd acc)
            in force_split_loop fuel cfg text sf pn
                 (if end1 < int (length text) then end1 - overlap_size cfg else end1)
                 (fst acc @ [chunk], snd (generate_chunk_id (u ''text'') (snd acc)))
      else Some (Inr acc))"

definition force_split ::
  "nat \<Rightarrow> ChunkerConfig \<Rightarrow> ustr \<Rightarrow> ustr option \<Rightarrow> int option \<Rightarrow> nat
     \<Rightarrow> (py_error + Chunk list \<times> nat) option" where
  "force_split fuel cfg text sf pn counter = force_split_loop fuel cfg text sf pn 0 ([], counter)"

text \<open>
  \<open>chunk_plain_text\<close>. The state of the loop over the paragraphs: the chunks, the counter and
  \<open>current_content\<close>.
\<close>

fun plain_loop ::
  "nat \<Rightarrow> ChunkerConfig \<Rightarrow> ustr option \<Rightarrow> int option \<Rightarrow> ustr list \<Rightarrow> Chunk list \<times> nat \<Rightarrow> ustr
     \<Rightarrow> (py_error + (Chunk list \<times> nat) \<times> ustr) option" where
  "plain_loop fuel cfg sf pn [] acc cur = Some (Inr (acc, cur))"
| "plain_loop fuel cfg sf pn (para0 # paras) acc cur =
     (let para = strip para0 in
      if para = [] then plain_loop fuel cfg sf pn paras acc cur
      else if int (length cur) + int (length para) > max_chunk_size cfg then
        if cur \<noteq> [] then
          let chunk = text_chunk (u ''text'') (strip cur) sf pn [] (snd acc);
              overlap = (if int (length cur) > overlap_size cfg
                         then py_slice_from cur (- overlap_size cfg) else [])
          in plain_loop fuel cfg sf pn paras
               (fst acc @ [chunk], snd (generate_chunk_id (u ''text'') (snd acc)))
               (overlap @ [10, 10] @ para @ [10, 10])
        else
          (case force_split fuel cfg para sf pn (snd acc) of
             None \<Rightarrow> None
           | Some (Inl e) \<Rightarrow> Some (Inl e)
           | Some (Inr (subs, counter)) \<Rightarrow> plain_loop fuel cfg sf pn paras (fst acc @ subs, counter) [])
      else plain_loop fuel cfg sf pn paras acc (cur @ para @ [10, 10]))"

definition chunk_plain_text ::
  "nat \<Rightarrow> ChunkerConfig \<Rightarrow> ustr \<Rightarrow> ustr option \<Rightarrow> int option \<Rightarrow> nat
     \<Rightarrow> (py_error + Chunk list \<times> nat) option" where
  "chunk_plain_text fuel cfg text sf pn counter =
     (if strip text = [] then Some (Inr ([], counter))
      else
        case plain_loop fuel cfg sf pn (rx_split paragraph_sep text) ([], counter) [] of
          None \<Rightarrow> None
        | Some (Inl e) \<Rightarrow> Some (Inl e)
        | Some (Inr (acc, cur)) \<Rightarrow>
            if strip cur \<noteq> [] then
              Some (Inr (fst acc @ [text_chunk (u ''text'') (strip cur) sf pn [] (snd acc)],
                         snd (generate_chunk_id (u ''text'') (snd acc))))
            else Some (Inr acc))"

text \<open>
  \<open>str.splitlines\<close>: a line ends at \<open>\n\<close>, \<open>\r\<close>, \<open>\r\n\<close>, U+000B, U+000C, U+001C, U+001D,
  U+001E, U+0085, U+2028 or U+2029; the line ends are dropped and there is no empty last
  line.
\<close>

definition is_linebreak :: "nat \<Rightarrow> bool" where
  "is_linebreak c = (c \<in> set [10, 13, 11, 12, 28, 29, 30, 133, 8232, 8233])"

fun splitlines_from :: "ustr \<Rightarrow> ustr \<Rightarrow> ustr list" where
  "splitlines_from cur [] = (if cur = [] then [] else [cur])"
| "splitlines_from cur [c] = (if is_linebreak c then [cur] else [cur @ [c]])"
| "splitlines_from cur (c # d # s) =
     (if c = 13 \<and> d = 10 then cur # splitlines_from [] s
      else if is_linebreak c then cur # splitlines_from [] (d # s)
      else splitlines_from (cur @ [c]) (d # s))"

definition splitlines :: "ustr \<Rightarrow> ustr list" where
  "splitlines t = splitlines_from [] t"

definition join_lines :: "ustr list \<Rightarrow> ustr" where
  "join_lines ls = (case ls of [] \<Rightarrow> [] | l # rest \<Rightarrow> foldl (\<lambda>acc x. acc @ [10] @ x) l rest)"

text \<open>
  \<open>chunk_markdown\<close>. The first loop collects the sections \<open>(title, body)\<close>; a title is a
  stripped line that starts with \<open>#\<close>, so it is never empty.
\<close>

record md_state =
  md_sections :: "(ustr option \<times> ustr) list"
  md_title :: "ustr option"
  md_lines :: "ustr list"

definition md_line :: "md_state \<Rightarrow> ustr \<Rightarrow> md_state" where
  "md_line st line =
     (if strip line \<noteq> [] \<and> hd (strip line) = 35 then
        \<lparr> md_sections = (if md_lines st \<noteq> []
                          then md_sections st @ [(md_title st, strip (join_lines (md_lines st)))]
                          else md_sections st),
          md_title = Some (strip line),
          md_lines = [] \<rparr>
      else st \<lparr> md_lines := md_lines st @ [line] \<rparr>)"

definition md_sections_of :: "ustr \<Rightarrow> (ustr option \<times> ustr) list" where
  "md_sections_of text =
     (let st = foldl md_line \<lparr> md_sections = [], md_title = None, md_lines = [] \<rparr> (splitlines text)
      in if md_lines st \<noteq> [] then md_sections st @ [(md_title st, strip (join_lines (md_lines st)))]
         else md_sections st)"

definition tag_title :: "ustr option \<Rightarrow> Chunk \<Rightarrow> Chunk" where
  "tag_title title sub =
     (case title of
        None \<Rightarrow> sub
      | Some t \<Rightarrow> sub \<lparr> metadata := metadata sub @ [(u ''md_title'', PyStr t), (u ''md_section'', PyBool True)] \<rparr>)"

fun md_loop ::
  "nat \<Rightarrow> ChunkerConfig \<Rightarrow> ustr option \<Rightarrow> int option \<Rightarrow> (ustr option \<times> ustr) list \<Rightarrow> Chunk list \<times> nat
     \<Rightarrow> (py_error + Chunk list \<times> nat) option" where
  "md_loop fuel cfg sf pn [] acc = Some (Inr acc)"
| "md_loop fuel cfg sf pn ((title, body) # rest) acc =
     (let section_text = (case title of Some t \<Rightarrow> strip (t @ [10, 10] @ body) | None \<Rightarrow> strip body) in
      if section_text = [] then md_loop fuel cfg sf pn rest acc
      else if int (length section_text) > max_chunk_size cfg then
        (case force_split fuel cfg section_text sf pn (snd acc) of
           None \<Rightarrow> None
         | Some (Inl e) \<Rightarrow> Some (Inl e)
         | Some (Inr (subs, counter)) \<Rightarrow>
             md_loop fuel cfg sf pn rest (fst acc @ map (tag_title title) subs, counter))
      else
        md_loop fuel cfg sf pn rest
          (fst acc @ [text_chunk (u ''md'') section_text sf pn
                        (case title of Some t \<Rightarrow> [(u ''md_title'', PyStr t)] | None \<Rightarrow> []) (snd acc)],
           snd (generate_chunk_id (u ''md'') (snd acc))))"

definition chunk_markdown ::
  "nat \<Rightarrow> ChunkerConfig \<Rightarrow> ustr \<Rightarrow> ustr option \<Rightarrow> int option \<Rightarrow> nat
     \<Rightarrow> (py_error + Chunk list \<times> nat) option" where
  "chunk_markdown fuel cfg text sf pn counter =
     (if strip text = [] then Some (Inr ([], counter))
      else
        let sections = md_sections_of text in
        if length sections = 1 \<and> fst (hd sections) = None
        then chunk_plain_text fuel cfg text sf pn counter
        else md_loop fuel cfg sf pn sections ([], counter))"

definition longest_paragraph :: "ustr \<Rightarrow> nat" where
  "longest_paragraph t = foldr max (map (\<lambda>para. length (strip para)) (rx_split paragraph_sep t)) 0"

section \<open>Auxiliary notions for the parser proofs\<close>

text \<open>
  No conversion of a digit string of the text can exceed the interpreter's limit: the limit
  is switched off, or the text is no longer than the limit.
\<close>

definition within_digit_limit :: "unicode_db \<Rightarrow> ustr \<Rightarrow> bool" where
  "within_digit_limit U t = (int_max_str_digits U = 0 \<or> length t \<le> int_max_str_digits U)"

fun spans_from :: "nat \<Rightarrow> nat \<Rightarrow> rmatch list \<Rightarrow> bool" where
  "spans_from n lo [] = True"
| "spans_from n lo (m # ms) =
     (lo \<le> m_start m \<and> m_start m \<le> m_end m \<and> m_end m \<le> n \<and> spans_from n (m_end m) ms)"

fun pairs_from :: "nat \<Rightarrow> QAPair list \<Rightarrow> bool" where
  "pairs_from lo [] = True"
| "pairs_from lo (q # qs) =
     (lo \<le> start_pos q \<and> start_pos q \<le> end_pos q \<and> pairs_from (end_pos q) qs)"

fun qchain :: "nat \<Rightarrow> nat \<Rightarrow> qpos list \<Rightarrow> bool" where
  "qchain n lo [] = True"
| "qchain n lo (pos # rest) =
     (lo \<le> q_start pos \<and> q_start pos \<le> q_end pos \<and> q_end pos \<le> n \<and> qchain n (q_end pos) rest)"

definition last_end :: "nat \<Rightarrow> QAPair list \<Rightarrow> nat" where
  "last_end lo qs = (if qs = [] then lo else end_pos (last qs))"

definition para_inv :: "para_state \<Rightarrow> bool" where
  "para_inv st = (pairs_from 0 (ps_pairs st) \<and> last_end 0 (ps_pairs st) \<le> ps_start st
     \<and> ps_start st \<le> ps_position st)"

fun sets_group :: "nat \<Rightarrow> rx \<Rightarrow> bool" where
  "sets_group i (Grp j r) = (j = i \<or> sets_group i r)"
| "sets_group i (Seq a b) = (sets_group i a \<or> sets_group i b)"
| "sets_group i (Alt a b) = (sets_group i a \<and> sets_group i b)"
| "sets_group i (Look r) = sets_group i r"
| "sets_group i r = False"

fun class_rep :: "(nat \<Rightarrow> bool) \<Rightarrow> rx \<Rightarrow> bool" where
  "class_rep D (Rep P lo hi g) = (\<forall>c. P c \<longrightarrow> D c)"
| "class_rep D r = False"

fun class_group :: "(nat \<Rightarrow> bool) \<Rightarrow> nat \<Rightarrow> rx \<Rightarrow> bool" where
  "class_group D i (Grp j r) = (if j = i then class_rep D r else class_group D i r)"
| "class_group D i (Seq a b) = (class_group D i a \<and> class_group D i b)"
| "class_group D i (Alt a b) = (class_group D i a \<and> class_group D i b)"
| "class_group D i (Look r) = class_group D i r"
| "class_group D i r = True"

definition cap_ok :: "(nat \<Rightarrow> bool) \<Rightarrow> ustr \<Rightarrow> (nat \<times> nat) option \<Rightarrow> bool" where
  "cap_ok D t x = (case x of None \<Rightarrow> True | Some (s, e) \<Rightarrow> list_all D (slice t s e))"

definition line_start :: "ustr \<Rightarrow> nat \<Rightarrow> bool" where
  "line_start t p = (p = 0 \<or> t ! (p - 1) = 10)"

definition pat_a :: rx where "pat_a = rx_seq [Bol, one_of [65, 97], ws_star, one_of answer_punct, ws_star]"

definition pat_da :: rx where "pat_da = rx_seq [Bol, lit 31572, ws_star, one_of answer_punct, ws_star]"

definition pat_bracket :: rx where "pat_bracket = rx_seq [Bol, lit 12304, lit 31572, opt [26696], lit 12305, ws_star]"

definition pat_jie :: rx where "pat_jie = rx_seq [Bol, lit 35299, one_of [31572, 26512], ws_star, opt answer_punct, ws_star]"

definition two_questions :: ustr where
  "two_questions = u ''1. a?'' @ [10, 10] @ u ''b'' @ [10, 10] @ u ''2. c?'' @ [10, 10] @ u ''d''"

definition plain_text :: ustr where
  "plain_text = u ''plain text'' @ [10, 10] @ u ''more''"

definition later_marker :: ustr where
  "later_marker = u ''foo'' @ [10] @ u ''A: bar''"

definition later_marker_doc :: ustr where
  "later_marker_doc = u ''1. Q?'' @ [10] @ u ''foo'' @ [10] @ u ''A: bar''"

section \<open>The answer markers without regular expressions\<close>

text \<open>
  The answer markers, written without regular expressions. \<open>ws_len s\<close> is the length of
  the whitespace at the front of \<open>s\<close>. For each of the four patterns of
  \<open>answer_start_patterns\<close> a function gives the length of the marker token at the front of
  \<open>s\<close>, and 0 when \<open>s\<close> does not start with such a token: a letter \<open>A\<close> or \<open>a\<close> (or
  the character U+7B54), whitespace, a mark out of \<open>. : U+3001 U+FF1A\<close>, whitespace; the
  bracketed word U+3010 U+7B54 U+6848 U+3011 or U+3010 U+7B54 U+3011, whitespace; and
  U+89E3 U+7B54 or U+89E3 U+6790, whitespace, then the mark and whitespace if the mark is
  there.
\<close>

definition ws_len :: "ustr \<Rightarrow> nat" where
  "ws_len s = length (takeWhile is_space s)"

definition punct_marker_len :: "nat list \<Rightarrow> ustr \<Rightarrow> nat" where
  "punct_marker_len initials s =
     (case s of
        [] \<Rightarrow> 0
      | c # r \<Rightarrow>
          if c \<in> set initials then
            (case drop (ws_len r) r of
               [] \<Rightarrow> 0
             | p # r2 \<Rightarrow> if p \<in> set answer_punct then 1 + ws_len r + 1 + ws_len r2 else 0)
          else 0)"

definition bracket_marker_len :: "ustr \<Rightarrow> nat" where
  "bracket_marker_len s =
     (if take 4 s = [12304, 31572, 26696, 12305] then 4 + ws_len (drop 4 s)
      else if take 3 s = [12304, 31572, 12305] then 3 + ws_len (drop 3 s)
      else 0)"

definition jie_marker_len :: "ustr \<Rightarrow> nat" where
  "jie_marker_len s =
     (case s of
        c # x # r \<Rightarrow>
          if c = 35299 \<and> x \<in> set [31572, 26512] then
            (case drop (ws_len r) r of
               [] \<Rightarrow> 2 + ws_len r
             | p # r2 \<Rightarrow> if p \<in> set answer_punct then 2 + ws_len r + 1 + ws_len r2
                          else 2 + ws_len r)
          else 0
      | _ \<Rightarrow> 0)"

definition marker_lens :: "(ustr \<Rightarrow> nat) list" where
  "marker_lens = [punct_marker_len [65, 97], punct_marker_len [31572], bracket_marker_len,
                  jie_marker_len]"

text \<open>
  One pass over a text that removes the marker tokens of one kind: \<open>bol\<close> says whether
  the front of \<open>s\<close> is at the start of a line. A token is removed where a line starts, and
  the text after it is at the start of a line when the token ends with a newline.
\<close>

function remove_markers :: "(ustr \<Rightarrow> nat) \<Rightarrow> bool \<Rightarrow> ustr \<Rightarrow> ustr" where
  "remove_markers len bol s =
     (if s = [] then []
      else if bol \<and> 0 < len s \<and> len s \<le> length s
           then remove_markers len (s ! (len s - 1) = 10) (drop (len s) s)
           else hd s # remove_markers len (hd s = 10) (tl s))"
  by pat_completeness auto

termination
  by (relation "measure (\<lambda>(len, bol, s). length s)") auto

declare remove_markers.simps [simp del]

text \<open>No line of \<open>t\<close> starts with a marker token.\<close>

definition marker_free :: "ustr \<Rightarrow> bool" where
  "marker_free t =
     list_all (\<lambda>len. list_all (\<lambda>p. line_start t p \<longrightarrow> len (drop p t) = 0) [0..<length t])
       marker_lens"

fun simple_rx :: "rx \<Rightarrow> bool" where
  "simple_rx (Chr P) = True"
| "simple_rx (Rep P lo hi g) = True"
| "simple_rx (Seq a b) = (simple_rx a \<and> simple_rx b)"
| "simple_rx r = False"

definition shift_end :: "nat \<Rightarrow> nat \<times> caps \<Rightarrow> nat \<times> caps" where
  "shift_end k x = (k + fst x, snd x)"

definition first_end :: "rx \<Rightarrow> ustr \<Rightarrow> caps \<Rightarrow> (nat \<times> caps) option" where
  "first_end r s c = (case rx_ends r s (0, c) of [] \<Rightarrow> None | x # _ \<Rightarrow> Some x)"

section \<open>A text with a number of 4301 digits\<close>

definition long_number_text :: ustr where
  "long_number_text = replicate 4301 49 @ u '': step 1''"

definition step_tail :: ustr where
  "step_tail = [58, 32, 115, 116, 101, 112, 32, 49]"

definition short_number_text :: ustr where
  "short_number_text = replicate 3 49 @ u '': step 1''"

section \<open>Auxiliary notions and examples for the chunker\<close>

definition split_inv :: "int \<Rightarrow> QAPair \<Rightarrow> split_state \<Rightarrow> bool" where
  "split_inv B qa st =
     ((\<forall>c \<in> set (ss_chunks st). int (length (content c)) \<le> B)
      \<and> (if ss_parts st = [] then ss_content st = qa_question qa @ [10, 10]
         else int (length (strip (ss_content st))) \<le> B))"

definition piece_end :: "ChunkerConfig \<Rightarrow> int \<Rightarrow> int option \<Rightarrow> int" where
  "piece_end cfg start b = (case b of Some i \<Rightarrow> i + 1 | None \<Rightarrow> start + max_chunk_size cfg)"

definition section_text :: "ustr option \<times> ustr \<Rightarrow> ustr" where
  "section_text s = (case fst s of Some t \<Rightarrow> strip (t @ [10, 10] @ snd s) | None \<Rightarrow> strip (snd s))"

definition markdown_fuel :: "ustr \<Rightarrow> nat" where
  "markdown_fuel text = Suc (length text + foldr max (map (\<lambda>s. length (section_text s)) (md_sections_of text)) 0)"

definition small_config :: ChunkerConfig where
  "small_config = \<lparr> max_chunk_size = 10, min_chunk_size = 2, overlap_size = 3 \<rparr>"

definition short_pair :: QAPair where
  "short_pair = \<lparr> qa_question = u ''q'', qa_answer = u ''abc'',
      qa_question_num = None, qa_source_file = None, qa_page_num = None,
      start_pos = 0, end_pos = 6 \<rparr>"

definition long_paragraph_pair :: QAPair where
  "long_paragraph_pair = \<lparr> qa_question = u ''q'', qa_answer = replicate 1700 97,
      qa_question_num = None, qa_source_file = None, qa_page_num = None,
      start_pos = 0, end_pos = 1703 \<rparr>"

definition two_paragraphs :: ustr where
  "two_paragraphs = u ''aaaaaaa'' @ [10, 10] @ u ''bbbbbbbbbb''"

text \<open>
  The paragraphs on which \<open>chunk_plain_text\<close> never meets a paragraph longer than
  \<open>max_chunk_size\<close> while \<open>current_content\<close> is pending: such paragraphs come only before
  the first paragraph that fits.
\<close>

fun no_overlong_after_pending :: "int \<Rightarrow> ustr list \<Rightarrow> bool" where
  "no_overlong_after_pending m [] = True"
| "no_overlong_after_pending m (para # paras) =
     (if strip para = [] \<or> int (length (strip para)) > m
      then no_overlong_after_pending m paras
      else list_all (\<lambda>q. int (length (strip q)) \<le> m) paras)"

definition md_headingless :: "ustr \<Rightarrow> bool" where
  "md_headingless text =
     (length (md_sections_of text) = 1 \<and> fst (hd (md_sections_of text)) = None)"

definition heading_text :: ustr where
  "heading_text = u ''# T'' @ [10] @ u ''hello''"

definition pending_overlong :: ustr where
  "pending_overlong = u ''aaaaaaa'' @ [10, 10] @ u ''bbbbbbbbbbbbbbbbbbbbbbbbbbbbbb''"

section \<open>Invariants of the exact-dedup loop\<close>

text \<open>\<open>Chunk(chunk_id=i, content=c, chunk_type='text')\<close>, every other field at its default.\<close>

definition mk_chunk :: "ustr \<Rightarrow> ustr \<Rightarrow> Chunk" where
  "mk_chunk i c = \<lparr> chunk_id = i, content = c, question = None, answer = None,
      chunk_type = u ''text'', source_file = None, page_num = None, question_num = None,
      metadata = [] \<rparr>"

text \<open>
  Two invariants of the loop of \<open>_exact_dedup\<close>. The first: the chunks of \<open>unique_chunks\<close>
  have pairwise different hashes, and each is the chunk \<open>seen_hashes\<close> holds for its hash.
  The second follows one hash \<open>h0\<close> and a set \<open>ids\<close> of chunk ids through the loop: what
  \<open>seen_hashes\<close> holds for \<open>h0\<close>, which chunks with an id in \<open>ids\<close> are in
  \<open>unique_chunks\<close>, and which recorded pairs mention an id in \<open>ids\<close>.
\<close>

definition dedup_inv :: "unicode_db \<Rightarrow> (ustr \<Rightarrow> 'd) \<Rightarrow> 'd dedup_state \<Rightarrow> bool" where
  "dedup_inv U md5 st = (case st of (seen, unique, dups) \<Rightarrow>
     distinct (map (\<lambda>c. compute_hash U md5 (content c)) unique)
     \<and> list_all (\<lambda>c. seen (compute_hash U md5 (content c)) = Some c) unique)"

definition pair_inv ::
  "unicode_db \<Rightarrow> (ustr \<Rightarrow> 'd) \<Rightarrow> 'd \<Rightarrow> ustr set \<Rightarrow> Chunk option \<Rightarrow> Chunk list
     \<Rightarrow> (ustr \<times> ustr) list \<Rightarrow> 'd dedup_state \<Rightarrow> bool" where
  "pair_inv U md5 h0 ids S K D st = (case st of (seen, unique, dups) \<Rightarrow>
     seen h0 = S
     \<and> (\<forall>h c. seen h = Some c \<longrightarrow> compute_hash U md5 (content c) = h)
     \<and> (\<forall>h c. seen h = Some c \<longrightarrow> h \<noteq> h0 \<longrightarrow> chunk_id c \<notin> ids)
     \<and> filter (\<lambda>c. chunk_id c \<in> ids) unique = K
     \<and> filter (\<lambda>p. fst p \<in> ids \<or> snd p \<in> ids) dups = D)"

section \<open>Properties of the deduplicator\<close>

text \<open>
  C10. The result of \<open>deduplicate\<close> does not depend on its threshold argument: for every
  chunk list and any two thresholds (given or not) the survivors and the removed pairs are
  the same, and they are those of the exact, hash-based pass alone.
\<close>

theorem deduplicate_threshold_independent:
  "deduplicate cfg U md5 chunks t1 = deduplicate cfg U md5 chunks t2
   \<and> deduplicate cfg U md5 chunks t1 = exact_dedup U md5 chunks"
  by (simp add: deduplicate_def Let_def split: prod.splits)

lemma length_u [simp]: "length (u s) = length s"
  by (simp add: u_def)

lemma exact_dedup_loop_append:
  "exact_dedup_loop U md5 st (xs @ ys) = exact_dedup_loop U md5 (exact_dedup_loop U md5 st xs) ys"
  by (simp add: exact_dedup_loop_def)

lemma exact_dedup_loop_Cons:
  "exact_dedup_loop U md5 st (x # xs) = exact_dedup_loop U md5 (exact_dedup_step U md5 st x) xs"
  by (simp add: exact_dedup_loop_def)

subsection \<open>Survivors have pairwise different hashes\<close>

lemma dedup_inv_step:
  assumes "dedup_inv U md5 st"
  shows "dedup_inv U md5 (exact_dedup_step U md5 st chunk)"
proof -
  obtain seen unique dups where st: "st = (seen, unique, dups)" by (cases st)
  let ?h = "\<lambda>c. compute_hash U md5 (content c)"
  from assms st have d: "distinct (map ?h unique)"
    and s: "\<forall>c \<in> set unique. seen (?h c) = Some c"
    by (auto simp: dedup_inv_def list_all_iff)
  show ?thesis
  proof (cases "seen (?h chunk)")
    case None
    with s have "?h chunk \<notin> set (map ?h unique)" by force
    with None d s show ?thesis
      by (auto simp: st dedup_inv_def exact_dedup_step_def list_all_iff)
  next
    case (Some existing)
    show ?thesis
    proof (cases "length (content chunk) > length (content existing)")
      case False
      with Some d s show ?thesis
        by (auto simp: st dedup_inv_def exact_dedup_step_def list_all_iff)
    next
      case True
      let ?f = "filter (\<lambda>c. chunk_id c \<noteq> chunk_id existing) unique"
      have 1: "distinct (map ?h ?f)" using d by (rule distinct_map_filter)
      have 2: "\<forall>c \<in> set ?f. ?h c \<noteq> ?h chunk"
      proof
        fix c assume c: "c \<in> set ?f"
        show "?h c \<noteq> ?h chunk"
        proof
          assume "?h c = ?h chunk"
          with s c Some have "c = existing" by auto
          with c show False by simp
        qed
      qed
      from 2 have 3: "?h chunk \<notin> set (map ?h ?f)" by force
      from 1 2 3 s Some True show ?thesis
        by (auto simp: st dedup_inv_def exact_dedup_step_def list_all_iff)
    qed
  qed
qed

lemma dedup_inv_loop:
  "dedup_inv U md5 st \<Longrightarrow> dedup_inv U md5 (exact_dedup_loop U md5 st chunks)"
  unfolding exact_dedup_loop_def
proof (induction chunks arbitrary: st)
  case Nil
  then show ?case by simp
next
  case (Cons c cs)
  from Cons.prems have "dedup_inv U md5 (exact_dedup_step U md5 st c)"
    by (rule dedup_inv_step)
  then show ?case using Cons.IH by simp
qed

text \<open>On chunks with fresh, pairwise different hashes the loop only appends.\<close>

lemma exact_dedup_loop_fresh:
  assumes "distinct (map (\<lambda>c. compute_hash U md5 (content c)) chunks)"
      and "\<forall>c \<in> set chunks. seen (compute_hash U md5 (content c)) = None"
  shows "\<exists>seen'. exact_dedup_loop U md5 (seen, unique, dups) chunks
                   = (seen', unique @ chunks, dups)"
  using assms unfolding exact_dedup_loop_def
proof (induction chunks arbitrary: seen unique)
  case Nil
  then show ?case by simp
next
  case (Cons c cs)
  let ?h = "\<lambda>c. compute_hash U md5 (content c)"
  have step: "exact_dedup_step U md5 (seen, unique, dups) c
                = (seen(?h c \<mapsto> c), unique @ [c], dups)"
    using Cons.prems by (simp add: exact_dedup_step_def)
  have "\<forall>x \<in> set cs. (seen(?h c \<mapsto> c)) (?h x) = None"
    using Cons.prems by (auto simp: image_iff)
  moreover have "distinct (map ?h cs)" using Cons.prems by simp
  ultimately obtain seen' where
    "foldl (exact_dedup_step U md5) (seen(?h c \<mapsto> c), unique @ [c], dups) cs
       = (seen', (unique @ [c]) @ cs, dups)"
    using Cons.IH by blast
  with step show ?case by simp
qed

text \<open>
  C8. Exact dedup is idempotent: run on the survivors of an earlier run, it returns them
  unchanged, in the same order, and records no removed pair.
\<close>

theorem exact_dedup_idempotent:
  "exact_dedup U md5 (fst (exact_dedup U md5 chunks)) = (fst (exact_dedup U md5 chunks), [])"
proof -
  obtain seen unique dups
    where r: "exact_dedup_loop U md5 (Map.empty, [], []) chunks = (seen, unique, dups)"
    by (cases "exact_dedup_loop U md5 (Map.empty, [], []) chunks")
  have "dedup_inv U md5 (Map.empty, [], [])" by (simp add: dedup_inv_def)
  then have "dedup_inv U md5 (seen, unique, dups)"
    using dedup_inv_loop[of U md5 "(Map.empty, [], [])" chunks] r by simp
  then have d: "distinct (map (\<lambda>c. compute_hash U md5 (content c)) unique)"
    by (simp add: dedup_inv_def)
  from exact_dedup_loop_fresh[OF d, of Map.empty "[]" "[]"]
  obtain seen' where "exact_dedup_loop U md5 (Map.empty, [], []) unique = (seen', unique, [])"
    by auto
  with r show ?thesis by (simp add: exact_dedup_def)
qed

subsection \<open>Two chunks with the same content\<close>

lemma pair_inv_step:
  assumes "pair_inv U md5 h0 ids S K D st"
      and "compute_hash U md5 (content chunk) \<noteq> h0"
      and "chunk_id chunk \<notin> ids"
  shows "pair_inv U md5 h0 ids S K D (exact_dedup_step U md5 st chunk)"
proof -
  obtain seen unique dups where st: "st = (seen, unique, dups)" by (cases st)
  let ?h = "compute_hash U md5 (content chunk)"
  show ?thesis
  proof (cases "seen ?h")
    case None
    with assms show ?thesis
      by (auto simp: st pair_inv_def exact_dedup_step_def)
  next
    case (Some existing)
    with assms have e: "chunk_id existing \<notin> ids"
      by (auto simp: st pair_inv_def)
    have f: "filter (\<lambda>c. chunk_id c \<in> ids)
               (filter (\<lambda>c. chunk_id c \<noteq> chunk_id existing) unique)
             = filter (\<lambda>c. chunk_id c \<in> ids) unique"
      using e by (auto intro: filter_cong)
    from assms Some e f show ?thesis
      by (auto simp: st pair_inv_def exact_dedup_step_def)
  qed
qed

lemma pair_inv_loop:
  assumes "pair_inv U md5 h0 ids S K D st"
      and "\<forall>c \<in> set chunks. compute_hash U md5 (content c) \<noteq> h0 \<and> chunk_id c \<notin> ids"
  shows "pair_inv U md5 h0 ids S K D (exact_dedup_loop U md5 st chunks)"
  using assms unfolding exact_dedup_loop_def
proof (induction chunks arbitrary: st)
  case Nil
  then show ?case by simp
next
  case (Cons c cs)
  from Cons.prems have "pair_inv U md5 h0 ids S K D (exact_dedup_step U md5 st c)"
    by (intro pair_inv_step) auto
  then show ?case using Cons.IH Cons.prems by simp
qed

lemma normalize_text_x: "normalize_text ascii_db (u ''x'') = u ''x''"
  by (simp add: normalize_text_def ascii_db_def u_def is_word_def is_space_def is_cjk_def
      strip_def lstrip_def rstrip_def ascii_lower_char_def)

lemma normalize_text_x_bang: "normalize_text ascii_db (u ''x!'') = u ''x''"
  by (simp add: normalize_text_def ascii_db_def u_def is_word_def is_space_def is_cjk_def
      strip_def lstrip_def rstrip_def ascii_lower_char_def)

lemma normalize_text_y: "normalize_text ascii_db (u ''y'') = u ''y''"
  by (simp add: normalize_text_def ascii_db_def u_def is_word_def is_space_def is_cjk_def
      strip_def lstrip_def rstrip_def ascii_lower_char_def)

text \<open>
  C5, as stated, fails. Chunks \<open>c1\<close> and \<open>c2\<close> have the same content \<open>x\<close> and different
  ids; a later chunk \<open>c3\<close> with content \<open>x!\<close> has the same normalised text and is longer,
  so it replaces \<open>c1\<close>. Neither of the two identical chunks is kept, and two pairs are
  reported. (Both contents normalise to \<open>x\<close>, so the digest function plays no role; the
  identity stands for it here.)
\<close>

theorem exact_dedup_identical_pair_counterexample:
  "content (mk_chunk (u ''c1'') (u ''x'')) = content (mk_chunk (u ''c2'') (u ''x''))
   \<and> chunk_id (mk_chunk (u ''c1'') (u ''x'')) \<noteq> chunk_id (mk_chunk (u ''c2'') (u ''x''))
   \<and> exact_dedup ascii_db id
        [mk_chunk (u ''c1'') (u ''x''), mk_chunk (u ''c2'') (u ''x''),
         mk_chunk (u ''c3'') (u ''x!'')]
      = ([mk_chunk (u ''c3'') (u ''x!'')], [(u ''c2'', u ''c1''), (u ''c1'', u ''c3'')])"
  by (simp add: exact_dedup_def exact_dedup_loop_def exact_dedup_step_def compute_hash_def
      normalize_text_x normalize_text_x_bang mk_chunk_def Let_def)
    (simp add: u_def)

text \<open>
  C5, amended. In a chunk list with pairwise different chunk ids, let \<open>a\<close> and a later
  \<open>b\<close> have the same content, and let no other chunk of the list have their content hash.
  Then exact dedup keeps exactly one of the two, the earlier chunk \<open>a\<close> (their lengths are
  equal), and exactly one reported pair mentions either of them: it records \<open>b\<close> as a
  duplicate of \<open>a\<close>.
\<close>

theorem exact_dedup_identical_pair:
  assumes ids: "distinct (map chunk_id (pre @ a # mid @ b # post))"
      and same: "content a = content b"
      and others: "\<forall>c \<in> set (pre @ mid @ post).
                     compute_hash U md5 (content c) \<noteq> compute_hash U md5 (content a)"
  shows "filter (\<lambda>c. chunk_id c \<in> {chunk_id a, chunk_id b})
           (fst (exact_dedup U md5 (pre @ a # mid @ b # post))) = [a]
       \<and> filter (\<lambda>p. fst p \<in> {chunk_id a, chunk_id b} \<or> snd p \<in> {chunk_id a, chunk_id b})
           (snd (exact_dedup U md5 (pre @ a # mid @ b # post))) = [(chunk_id b, chunk_id a)]"
proof -
  let ?h0 = "compute_hash U md5 (content a)"
  let ?ids = "{chunk_id a, chunk_id b}"
  let ?J = "pair_inv U md5 ?h0 ?ids"
  have ab: "chunk_id a \<noteq> chunk_id b" using ids by auto
  have frame: "\<forall>c \<in> set pre \<union> set mid \<union> set post.
                 compute_hash U md5 (content c) \<noteq> ?h0 \<and> chunk_id c \<notin> ?ids"
    using ids others by (auto simp: image_iff)
  define s0 :: "'a dedup_state" where "s0 = (Map.empty, [], [])"
  define s1 where "s1 = exact_dedup_loop U md5 s0 pre"
  define s2 where "s2 = exact_dedup_step U md5 s1 a"
  define s3 where "s3 = exact_dedup_loop U md5 s2 mid"
  define s4 where "s4 = exact_dedup_step U md5 s3 b"
  define s5 where "s5 = exact_dedup_loop U md5 s4 post"
  have run: "exact_dedup_loop U md5 s0 (pre @ a # mid @ b # post) = s5"
    by (simp add: s5_def s4_def s3_def s2_def s1_def exact_dedup_loop_append
        exact_dedup_loop_Cons)
  have "?J None [] [] s0" by (simp add: pair_inv_def s0_def)
  then have j1: "?J None [] [] s1"
    unfolding s1_def using frame by (intro pair_inv_loop) auto
  have j2: "?J (Some a) [a] [] s2"
  proof -
    obtain seen unique dups where st: "s1 = (seen, unique, dups)" by (cases s1)
    with j1 show ?thesis
      by (auto simp: s2_def pair_inv_def exact_dedup_step_def)
  qed
  then have j3: "?J (Some a) [a] [] s3"
    unfolding s3_def using frame by (intro pair_inv_loop) auto
  have j4: "?J (Some a) [a] [(chunk_id b, chunk_id a)] s4"
  proof -
    obtain seen unique dups where st: "s3 = (seen, unique, dups)" by (cases s3)
    with j3 same ab show ?thesis
      by (auto simp: s4_def pair_inv_def exact_dedup_step_def)
  qed
  then have j5: "?J (Some a) [a] [(chunk_id b, chunk_id a)] s5"
    unfolding s5_def using frame by (intro pair_inv_loop) auto
  obtain seen unique dups where st: "s5 = (seen, unique, dups)" by (cases s5)
  with j5 run show ?thesis
    by (simp add: exact_dedup_def pair_inv_def s0_def)
qed

text \<open>
  The amended claim at the list \<open>c1: x\<close>, \<open>c4: y\<close>, \<open>c2: x\<close>: \<open>c1\<close> is kept, \<open>c2\<close> is
  removed as its duplicate.
\<close>

theorem exact_dedup_identical_pair_witness:
  "distinct (map chunk_id ([] @ mk_chunk (u ''c1'') (u ''x'') # [mk_chunk (u ''c4'') (u ''y'')]
      @ mk_chunk (u ''c2'') (u ''x'') # []))
   \<and> content (mk_chunk (u ''c1'') (u ''x'')) = content (mk_chunk (u ''c2'') (u ''x''))
   \<and> compute_hash ascii_db id (content (mk_chunk (u ''c4'') (u ''y'')))
       \<noteq> compute_hash ascii_db id (content (mk_chunk (u ''c1'') (u ''x'')))
   \<and> filter (\<lambda>c. chunk_id c \<in> {u ''c1'', u ''c2''})
        (fst (exact_dedup ascii_db id
          [mk_chunk (u ''c1'') (u ''x''), mk_chunk (u ''c4'') (u ''y''),
           mk_chunk (u ''c2'') (u ''x'')])) = [mk_chunk (u ''c1'') (u ''x'')]
   \<and> filter (\<lambda>p. fst p \<in> {u ''c1'', u ''c2''} \<or> snd p \<in> {u ''c1'', u ''c2''})
        (snd (exact_dedup ascii_db id
          [mk_chunk (u ''c1'') (u ''x''), mk_chunk (u ''c4'') (u ''y''),
           mk_chunk (u ''c2'') (u ''x'')])) = [(u ''c2'', u ''c1'')]"
proof -
  have h1: "distinct (map chunk_id ([] @ mk_chunk (u ''c1'') (u ''x'')
      # [mk_chunk (u ''c4'') (u ''y'')] @ mk_chunk (u ''c2'') (u ''x'') # []))"
    by (simp add: mk_chunk_def u_def)
  have h2: "content (mk_chunk (u ''c1'') (u ''x'')) = content (mk_chunk (u ''c2'') (u ''x''))"
    by (simp add: mk_chunk_def)
  have h3: "compute_hash ascii_db id (content (mk_chunk (u ''c4'') (u ''y'')))
       \<noteq> compute_hash ascii_db id (content (mk_chunk (u ''c1'') (u ''x'')))"
    by (simp add: mk_chunk_def compute_hash_def normalize_text_x normalize_text_y)
      (simp add: u_def)
  have h3': "\<forall>c \<in> set ([] @ [mk_chunk (u ''c4'') (u ''y'')] @ []).
       compute_hash ascii_db id (content c)
         \<noteq> compute_hash ascii_db id (content (mk_chunk (u ''c1'') (u ''x'')))"
    using h3 by simp
  from exact_dedup_identical_pair[OF h1 h2 h3'] h1 h2 h3
  show ?thesis by (simp add: mk_chunk_def)
qed

section \<open>Properties of the validator\<close>

lemma strip_ten_a: "strip ten_a \<noteq> []"
  by (simp add: ten_a_def strip_def lstrip_def rstrip_def is_space_def)

lemma garbled_ten_a: "check_garbled ten_a = 0"
  by (simp add: ten_a_def check_garbled_def is_normal_char_def is_cjk_def)

lemma special_ten_a: "check_special_chars ten_a = 0"
  by (simp add: ten_a_def check_special_chars_def is_normal_char_def is_cjk_def)

lemma repetition_ten_a: "check_repetition ten_a = 0"
  by (simp add: ten_a_def check_repetition_def)

lemma length_check_qa_completeness: "length (check_qa_completeness c) \<le> 2"
  by (simp add: check_qa_completeness_def split: option.splits)

text \<open>
  C2, as stated, fails: the string has 10 characters and \<open>_check_repetition\<close> returns 0 for
  every text shorter than 20. For the chunk built with the default \<open>chunk_type\<close> and for a
  text chunk, the repetition ratio is 0 and the chunk is valid.
\<close>

theorem validate_chunk_ten_a_counterexample:
  "scores (validate_chunk default_quality_config (default_chunk (u ''c1'') ten_a))
      ''repetition_ratio'' = Some 0
   \<and> is_valid (validate_chunk default_quality_config (default_chunk (u ''c1'') ten_a))
   \<and> scores (validate_chunk default_quality_config (mk_chunk (u ''c1'') ten_a))
      ''repetition_ratio'' = Some 0
   \<and> is_valid (validate_chunk default_quality_config (mk_chunk (u ''c1'') ten_a))"
  by (simp add: validate_chunk_def Let_def strip_ten_a garbled_ten_a special_ten_a
      repetition_ten_a default_quality_config_def calculate_overall_score_def
      check_qa_completeness_def default_chunk_def mk_chunk_def)
    (simp add: ten_a_def)

text \<open>
  C2, amended. For every chunk whose content is the 10-character string, whatever its
  other fields, \<open>validate_chunk\<close> with the default configuration reports a repetition
  ratio of 0 (texts shorter than 20 characters are not scored for repetition) and
  \<open>is_valid = true\<close>.
\<close>

theorem validate_chunk_ten_a:
  "scores (validate_chunk default_quality_config (c\<lparr>content := ten_a\<rparr>))
      ''repetition_ratio'' = Some 0
   \<and> is_valid (validate_chunk default_quality_config (c\<lparr>content := ten_a\<rparr>))"
proof -
  have l: "length ten_a = 10" by (simp add: ten_a_def)
  have n: "ten_a \<noteq> []" by (simp add: ten_a_def)
  have q: "length (check_qa_completeness (c\<lparr>content := ten_a\<rparr>)) \<le> 2"
    by (rule length_check_qa_completeness)
  show ?thesis using q
    by (simp add: validate_chunk_def Let_def strip_ten_a garbled_ten_a special_ten_a
        repetition_ten_a default_quality_config_def calculate_overall_score_def l n)
qed

theorem validate_chunk_ten_a_witness:
  "scores (validate_chunk default_quality_config
      ((default_chunk (u ''c7'') (u ''x''))\<lparr>content := ten_a\<rparr>)) ''repetition_ratio'' = Some 0
   \<and> is_valid (validate_chunk default_quality_config
      ((default_chunk (u ''c7'') (u ''x''))\<lparr>content := ten_a\<rparr>))"
  using validate_chunk_ten_a[of "default_chunk (u ''c7'') (u ''x'')"] by simp

text \<open>
  C6. For every chunk and configuration: when the content is empty or only whitespace,
  the result is \<open>is_valid = false\<close> with the single score \<open>overall = 0\<close> and the single
  issue "empty content"; otherwise \<open>is_valid\<close> holds exactly when the issue list is empty
  or the overall score is at least 0.6. In either case a chunk with no issue is valid.
\<close>

theorem validate_chunk_validity:
  "(content c = [] \<or> strip (content c) = [] \<longrightarrow>
      validate_chunk cfg c = \<lparr> vr_chunk_id = chunk_id c, is_valid = False,
         issues = [EmptyContent], scores = [''overall'' \<mapsto> 0] \<rparr>)
   \<and> (\<not> (content c = [] \<or> strip (content c) = []) \<longrightarrow>
        (\<exists>ov. scores (validate_chunk cfg c) ''overall'' = Some ov
           \<and> is_valid (validate_chunk cfg c)
               = (issues (validate_chunk cfg c) = [] \<or> ov \<ge> 6 / 10)))
   \<and> (issues (validate_chunk cfg c) = [] \<longrightarrow> is_valid (validate_chunk cfg c))"
  by (simp add: validate_chunk_def Let_def)

lemma strip_carets: "strip carets \<noteq> []"
  by (simp add: carets_def strip_def lstrip_def rstrip_def is_space_def)

lemma garbled_carets: "check_garbled carets = 1"
  by (simp add: carets_def check_garbled_def is_normal_char_def is_cjk_def is_space_def)

lemma special_carets: "check_special_chars carets = 1"
  by (simp add: carets_def check_special_chars_def is_normal_char_def is_cjk_def is_space_def)

lemma repetition_carets: "check_repetition carets = 1"
  by (simp add: carets_def check_repetition_def Let_def upt_conv_Cons)

text \<open>
  The three cases at concrete chunks: an empty text chunk; twenty carets, with three
  issues and an overall score of 0, hence invalid; and the chunk of Scenario D, with one
  issue (too short) and a score of 0.9, hence valid.
\<close>

theorem validate_chunk_validity_witness:
  "validate_chunk default_quality_config (mk_chunk (u ''c1'') [])
     = \<lparr> vr_chunk_id = u ''c1'', is_valid = False, issues = [EmptyContent],
         scores = [''overall'' \<mapsto> 0] \<rparr>
   \<and> strip (content (mk_chunk (u ''c2'') carets)) \<noteq> []
   \<and> issues (validate_chunk default_quality_config (mk_chunk (u ''c2'') carets))
       = [Garbled 1, Repetition 1, SpecialChars 1]
   \<and> scores (validate_chunk default_quality_config (mk_chunk (u ''c2'') carets)) ''overall''
       = Some 0
   \<and> \<not> is_valid (validate_chunk default_quality_config (mk_chunk (u ''c2'') carets))
   \<and> scores (validate_chunk default_quality_config (mk_chunk (u ''c3'') ten_a)) ''overall''
       = Some (9 / 10)
   \<and> is_valid (validate_chunk default_quality_config (mk_chunk (u ''c3'') ten_a))"
proof -
  have e: "content (mk_chunk (u ''c1'') []) = []" by (simp add: mk_chunk_def)
  have c: "strip (content (mk_chunk (u ''c2'') carets)) \<noteq> []"
    by (simp add: mk_chunk_def strip_carets)
  have n: "carets \<noteq> []" "length carets = 20" by (simp_all add: carets_def)
  have i: "issues (validate_chunk default_quality_config (mk_chunk (u ''c2'') carets))
       = [Garbled 1, Repetition 1, SpecialChars 1]"
    by (simp add: validate_chunk_def Let_def mk_chunk_def strip_carets garbled_carets
        special_carets repetition_carets default_quality_config_def n u_def)
  have s: "scores (validate_chunk default_quality_config (mk_chunk (u ''c2'') carets))
       ''overall'' = Some 0"
    by (simp add: validate_chunk_def Let_def mk_chunk_def strip_carets garbled_carets
        special_carets repetition_carets default_quality_config_def n u_def
        calculate_overall_score_def)
  have t: "scores (validate_chunk default_quality_config (mk_chunk (u ''c3'') ten_a))
       ''overall'' = Some (9 / 10)"
    by (simp add: validate_chunk_def Let_def mk_chunk_def strip_ten_a garbled_ten_a
        special_ten_a repetition_ten_a default_quality_config_def u_def
        calculate_overall_score_def)
      (simp add: ten_a_def)
  have t0: "strip (content (mk_chunk (u ''c3'') ten_a)) \<noteq> []"
    by (simp add: mk_chunk_def strip_ten_a)
  from validate_chunk_validity[of "mk_chunk (u ''c1'') []" default_quality_config]
       validate_chunk_validity[of "mk_chunk (u ''c2'') carets" default_quality_config]
       validate_chunk_validity[of "mk_chunk (u ''c3'') ten_a" default_quality_config]
       e c i s t t0
  show ?thesis by (auto simp: mk_chunk_def)
qed

section \<open>Properties of \<open>merge_short_qas\<close>\<close>

lemma merge_loop_from:
  "(case foldl (merge_step m) (merged, Some cur) xs of
      (merged', current) \<Rightarrow>
        (case current of Some c \<Rightarrow> merged' @ [c] | None \<Rightarrow> merged'))
   = merged @ merge_from m cur xs"
proof (induction xs arbitrary: merged cur)
  case Nil
  show ?case by simp
next
  case (Cons x xs)
  show ?case
  proof (cases "int (qa_char_count cur) < m")
    case True
    have "merge_step m (merged, Some cur) x = (merged, Some (merge_pair cur x))"
      using True by (simp add: merge_step_def merge_pair_def)
    then show ?thesis using True Cons.IH[of merged "merge_pair cur x"] by simp
  next
    case False
    have "merge_step m (merged, Some cur) x = (merged @ [cur], Some x)"
      using False by (simp add: merge_step_def)
    then show ?thesis using False Cons.IH[of "merged @ [cur]" x] by simp
  qed
qed

lemma merge_short_qas_from: "merge_short_qas (a # xs) m = merge_from m a xs"
proof -
  have "merge_step m ([], None) a = ([], Some a)" by (simp add: merge_step_def)
  then show ?thesis using merge_loop_from[of m "[]" a xs]
    by (simp add: merge_short_qas_def)
qed

text \<open>
  C4, as stated, fails. With a minimum of 50 the short pair \<open>Q1?/A1\<close> is followed by
  \<open>Q2?/A2\<close>. The result is one pair that keeps the question and the number of the short
  pair; the following pair's question and answer are appended to the short pair's answer,
  not the other way round.
\<close>

theorem merge_short_qas_counterexample:
  "merge_short_qas [qa1, qa2] 50
     = [\<lparr> qa_question = u ''Q1?'',
           qa_answer = u ''A1'' @ [10, 10] @ u ''Q2?'' @ [10] @ u ''A2'',
           qa_question_num = Some 1, qa_source_file = None, qa_page_num = None,
           start_pos = 0, end_pos = 14 \<rparr>]
   \<and> qa_question (hd (merge_short_qas [qa1, qa2] 50)) \<noteq> qa_question qa2
   \<and> \<not> prefix (qa_answer qa2) (qa_answer (hd (merge_short_qas [qa1, qa2] 50)))"
  by (simp add: merge_short_qas_def merge_step_def qa1_def qa2_def qa_char_count_def
      full_text_def u_def)

text \<open>
  C4, amended. \<open>merge_short_qas\<close> goes through the list from the left. A pair whose
  \<open>char_count\<close>, that is \<open>len(question) + 2 + len(answer)\<close>, is below the minimum and
  that has a successor is combined with it: the combined pair keeps the question,
  question number, source file and page of the short pair, its answer is the short pair's
  answer, a blank line, the following pair's question, a newline and the following pair's
  answer, and its range runs from the \<open>start_pos\<close> of the earlier to the \<open>end_pos\<close> of
  the later pair. The combined pair is tested again against the next pair. A pair that is
  long enough is emitted unchanged, and so is a short pair with no successor.
\<close>

theorem merge_short_qas_unfold:
  "merge_short_qas [] m = []
   \<and> merge_short_qas [a] m = [a]
   \<and> merge_short_qas (a # b # rest) m =
       (if int (length (qa_question a) + 2 + length (qa_answer a)) < m
        then merge_short_qas
               (\<lparr> qa_question = qa_question a,
                   qa_answer = qa_answer a @ [10, 10] @ qa_question b @ [10] @ qa_answer b,
                   qa_question_num = qa_question_num a,
                   qa_source_file = qa_source_file a,
                   qa_page_num = qa_page_num a,
                   start_pos = start_pos a,
                   end_pos = end_pos b \<rparr> # rest) m
        else a # merge_short_qas (b # rest) m)"
proof -
  have c: "qa_char_count a = length (qa_question a) + 2 + length (qa_answer a)"
    by (simp add: qa_char_count_def full_text_def)
  have 1: "merge_short_qas [] m = []" by (simp add: merge_short_qas_def)
  have 2: "merge_short_qas [a] m = [a]" by (simp add: merge_short_qas_from)
  have 3: "merge_short_qas (a # b # rest) m =
       (if int (qa_char_count a) < m then merge_short_qas (merge_pair a b # rest) m
        else a # merge_short_qas (b # rest) m)"
    by (simp add: merge_short_qas_from)
  show ?thesis using 1 2 3 unfolding c merge_pair_def by blast
qed


text \<open>
  With a minimum of 12: \<open>qa1\<close> (7 characters) absorbs \<open>qa2\<close>, the combined pair has 17
  characters and is emitted, and \<open>qa3\<close> follows unchanged.
\<close>

theorem merge_short_qas_unfold_witness:
  "merge_short_qas [qa1, qa2, qa3] 12
     = [\<lparr> qa_question = u ''Q1?'',
           qa_answer = u ''A1'' @ [10, 10] @ u ''Q2?'' @ [10] @ u ''A2'',
           qa_question_num = Some 1, qa_source_file = None, qa_page_num = None,
           start_pos = 0, end_pos = 14 \<rparr>, qa3]"
proof -
  let ?m = "\<lparr> qa_question = qa_question qa1,
      qa_answer = qa_answer qa1 @ [10, 10] @ qa_question qa2 @ [10] @ qa_answer qa2,
      qa_question_num = qa_question_num qa1, qa_source_file = qa_source_file qa1,
      qa_page_num = qa_page_num qa1, start_pos = start_pos qa1, end_pos = end_pos qa2 \<rparr>"
  have 1: "merge_short_qas [qa1, qa2, qa3] 12 = merge_short_qas [?m, qa3] 12"
    using merge_short_qas_unfold[of 12 qa1 qa2 "[qa3]"] by (simp add: qa1_def u_def)
  have 2: "merge_short_qas [?m, qa3] 12 = ?m # merge_short_qas [qa3] 12"
    using merge_short_qas_unfold[of 12 ?m qa3 "[]"] by (simp add: qa1_def qa2_def u_def)
  have 3: "merge_short_qas [qa3] 12 = [qa3]"
    using merge_short_qas_unfold[of 12 qa3] by simp
  from 1 2 3 show ?thesis by (simp add: qa1_def qa2_def)
qed

section \<open>Properties of the regular-expression matcher\<close>

lemma rep_counts_le: "k \<in> set (rep_counts lo hi g n) \<Longrightarrow> k \<le> n \<and> lo \<le> k"
  by (auto simp: rep_counts_def Let_def split: option.splits if_splits)

lemma length_takeWhile_drop_le: "p + length (takeWhile P (drop p t)) \<le> max p (length t)"
proof -
  have "length (takeWhile P (drop p t)) \<le> length (drop p t)" by (rule length_takeWhile_le)
  then show ?thesis by simp
qed

lemma rx_ends_bounds:
  "(e, c') \<in> set (rx_ends r t (p, c)) \<Longrightarrow> p \<le> length t \<Longrightarrow> p \<le> e \<and> e \<le> length t"
proof (induction r arbitrary: p c e c')
  case (Chr P)
  then show ?case by (auto split: if_splits)
next
  case (Rep P lo hi g)
  then obtain k where k: "k \<in> set (rep_counts lo hi g (length (takeWhile P (drop p t))))" "e = p + k"
    by auto
  from rep_counts_le[OF k(1)] length_takeWhile_drop_le[of p P t] Rep.prems(2) k(2)
  show ?case by simp
next
  case Bol
  then show ?case by (auto split: if_splits)
next
  case Eol
  then show ?case by (auto split: if_splits)
next
  case Start
  then show ?case by (auto split: if_splits)
next
  case Eps
  then show ?case by auto
next
  case (Seq a b)
  from Seq.prems(1) obtain e1 c1 where 1: "(e1, c1) \<in> set (rx_ends a t (p, c))"
    and 2: "(e, c') \<in> set (rx_ends b t (e1, c1))" by auto
  from Seq.IH(1)[OF 1 Seq.prems(2)] have "p \<le> e1" "e1 \<le> length t" by auto
  with Seq.IH(2)[OF 2] show ?case by auto
next
  case (Alt a b)
  then show ?case by auto
next
  case (Grp i r)
  then show ?case by auto
next
  case (Look r)
  then show ?case by (auto split: list.splits)
qed

lemma match_at_bounds:
  assumes "match_at r t p = Some m" "p \<le> length t"
  shows "m_start m = p \<and> p \<le> m_end m \<and> m_end m \<le> length t"
proof -
  from assms(1) obtain e c rest where r: "rx_ends r t (p, Map.empty) = (e, c) # rest"
    and m: "m = \<lparr> m_start = p, m_end = e, m_caps = c \<rparr>"
    by (auto simp: match_at_def split: list.splits)
  from r have "(e, c) \<in> set (rx_ends r t (p, Map.empty))" by simp
  from rx_ends_bounds[OF this assms(2)] m show ?thesis by simp
qed

lemma spans_from_mono: "spans_from n lo ms \<Longrightarrow> lo' \<le> lo \<Longrightarrow> spans_from n lo' ms"
  by (cases ms) auto

lemma finditer_from_spans: "spans_from (length t) p (finditer_from r t p)"
proof (induction r t p rule: finditer_from.induct)
  case (1 r t p)
  show ?case
  proof (cases "length t < p")
    case True
    then show ?thesis by simp
  next
    case False
    note F = False
    show ?thesis
    proof (cases "match_at r t p")
      case None
      with F 1(1) have "spans_from (length t) (Suc p) (finditer_from r t (Suc p))" by simp
      then have "spans_from (length t) p (finditer_from r t (Suc p))"
        by (rule spans_from_mono) simp
      with F None show ?thesis by (subst finditer_from.simps) simp
    next
      case (Some m)
      from F have pl: "p \<le> length t" by simp
      from match_at_bounds[OF Some pl] have b: "m_start m = p" "p \<le> m_end m" "m_end m \<le> length t"
        by auto
      let ?n = "if m_end m \<le> p then Suc p else m_end m"
      from 1(2)[OF F Some] have "spans_from (length t) ?n (finditer_from r t ?n)" .
      then have "spans_from (length t) (m_end m) (finditer_from r t ?n)"
        by (rule spans_from_mono) (use b in auto)
      with F Some b show ?thesis by (subst finditer_from.simps) simp
    qed
  qed
qed

section \<open>Positions of the parsed pairs\<close>

lemma pairs_from_mono: "pairs_from lo qs \<Longrightarrow> lo' \<le> lo \<Longrightarrow> pairs_from lo' qs"
  by (cases qs) auto

lemma qchain_mono: "qchain n lo qs \<Longrightarrow> lo' \<le> lo \<Longrightarrow> qchain n lo' qs"
  by (cases qs) auto

lemma pairs_from_snoc:
  "pairs_from lo (qs @ [q]) =
     (pairs_from lo qs \<and> last_end lo qs \<le> start_pos q \<and> start_pos q \<le> end_pos q)"
  by (induction qs arbitrary: lo) (auto simp: last_end_def)

lemma pairs_from_last_end: "pairs_from lo qs \<Longrightarrow> lo \<le> last_end lo qs"
proof (induction qs arbitrary: lo)
  case Nil
  then show ?case by (simp add: last_end_def)
next
  case (Cons q qs)
  from Cons.prems have "pairs_from (end_pos q) qs" "lo \<le> end_pos q" by auto
  from Cons.IH[OF this(1)] this(2) show ?case by (auto simp: last_end_def)
qed

lemma pairs_from_map_meta:
  "pairs_from lo (map (\<lambda>qa. qa\<lparr> qa_source_file := sf, qa_page_num := pn \<rparr>) qs) = pairs_from lo qs"
  by (induction qs arbitrary: lo) auto

text \<open>What the claim says, from the chain.\<close>

lemma pairs_from_sorted: "pairs_from lo qs \<Longrightarrow> sorted (map start_pos qs) \<and> (\<forall>q \<in> set qs. lo \<le> start_pos q)"
proof (induction qs arbitrary: lo)
  case Nil
  then show ?case by simp
next
  case (Cons q qs)
  from Cons.prems have 1: "lo \<le> start_pos q" "start_pos q \<le> end_pos q" "pairs_from (end_pos q) qs"
    by auto
  from Cons.IH[OF 1(3)] 1 show ?case by auto
qed

lemma pairs_from_each: "pairs_from lo qs \<Longrightarrow> q \<in> set qs \<Longrightarrow> start_pos q \<le> end_pos q"
  by (induction qs arbitrary: lo) auto

lemma pairs_from_adjacent:
  "pairs_from lo qs \<Longrightarrow> Suc i < length qs \<Longrightarrow> end_pos (qs ! i) \<le> start_pos (qs ! Suc i)"
proof (induction qs arbitrary: lo i)
  case Nil
  then show ?case by simp
next
  case (Cons q qs)
  show ?case
  proof (cases i)
    case 0
    with Cons.prems show ?thesis by (cases qs) auto
  next
    case (Suc j)
    with Cons.prems Cons.IH[of "end_pos q" j] show ?thesis by auto
  qed
qed

subsection \<open>The marker scan\<close>

lemma unique_positions_chain:
  assumes "\<forall>pos \<in> set qps. q_start pos \<le> q_end pos \<and> q_end pos \<le> n"
  shows "qchain n (nat le) (unique_positions le qps)"
  using assms
proof (induction qps arbitrary: le)
  case Nil
  then show ?case by simp
next
  case (Cons pos rest)
  from Cons.prems have r: "\<forall>pos \<in> set rest. q_start pos \<le> q_end pos \<and> q_end pos \<le> n"
    and p: "q_start pos \<le> q_end pos" "q_end pos \<le> n" by auto
  show ?case
  proof (cases "int (q_start pos) \<ge> le")
    case True
    from Cons.IH[OF r, of "int (q_end pos)"] have "qchain n (q_end pos) (unique_positions (int (q_end pos)) rest)"
      by simp
    with True p show ?thesis by auto
  next
    case False
    with Cons.IH[OF r, of le] show ?thesis by simp
  qed
qed

lemma build_pairs_chain: "qchain (length t) lo us \<Longrightarrow> pairs_from lo (build_pairs t us)"
proof (induction us arbitrary: lo)
  case Nil
  then show ?case by simp
next
  case (Cons pos rest)
  from Cons.prems have p: "lo \<le> q_start pos" "q_start pos \<le> q_end pos" "q_end pos \<le> length t"
    and c: "qchain (length t) (q_end pos) rest" by auto
  define answer_end where "answer_end = (case rest of [] \<Rightarrow> length t | nxt # _ \<Rightarrow> q_start nxt)"
  have ae: "q_end pos \<le> answer_end" and rest': "pairs_from answer_end (build_pairs t rest)"
  proof -
    show "q_end pos \<le> answer_end" using c p by (cases rest) (auto simp: answer_end_def)
    show "pairs_from answer_end (build_pairs t rest)"
    proof (cases rest)
      case Nil
      then show ?thesis by simp
    next
      case (Cons nxt r)
      with c have "qchain (length t) (q_start nxt) rest" by auto
      from Cons.IH[OF this] Cons show ?thesis by (simp add: answer_end_def)
    qed
  qed
  have lo': "pairs_from lo (build_pairs t rest)"
    using rest' by (rule pairs_from_mono) (use p ae in simp)
  show ?case using p ae rest' lo'
    by (simp add: Let_def answer_end_def[symmetric])
qed

lemma collect_Inr_set:
  "collect rs = Inr xs \<Longrightarrow> x \<in> set xs \<Longrightarrow> Inr (Some x) \<in> set rs"
proof (induction rs arbitrary: xs)
  case Nil
  then show ?case by simp
next
  case (Cons r rs)
  show ?case
  proof (cases r)
    case (Inl e)
    with Cons.prems show ?thesis by simp
  next
    case (Inr y)
    with Cons.prems obtain ys where ys: "collect rs = Inr ys"
      and xs: "xs = (case y of None \<Rightarrow> ys | Some z \<Rightarrow> z # ys)"
      by (auto split: sum.splits)
    show ?thesis
    proof (cases "x \<in> set ys")
      case True
      from Cons.IH[OF ys True] show ?thesis by simp
    next
      case False
      with xs Cons.prems(2) Inr show ?thesis by (cases y) auto
    qed
  qed
qed

lemma finditer_from_member_bounds:
  "m \<in> set (finditer_from r t p) \<Longrightarrow> m_start m \<le> m_end m \<and> m_end m \<le> length t"
proof -
  have "spans_from n lo ms \<Longrightarrow> m \<in> set ms \<Longrightarrow> m_start m \<le> m_end m \<and> m_end m \<le> n" for n lo ms
    by (induction ms arbitrary: lo) auto
  from this[OF finditer_from_spans] show "m \<in> set (finditer_from r t p) \<Longrightarrow> ?thesis" by blast
qed

lemma mk_position_bounds:
  "mk_position U t ng m = Inr (Some pos) \<Longrightarrow> q_start pos = m_start m \<and> q_end pos = m_end m"
  by (auto simp: mk_position_def Let_def split: sum.splits option.splits if_splits)

lemma question_positions_bounds:
  assumes "question_positions U t = Inr qps" "pos \<in> set qps"
  shows "q_start pos \<le> q_end pos \<and> q_end pos \<le> length t"
proof -
  from collect_Inr_set[OF assms[unfolded question_positions_def]]
  obtain pattern ng m where "m \<in> set (finditer pattern t)" "mk_position U t ng m = Inr (Some pos)"
    by auto
  with finditer_from_member_bounds[of m pattern t 0] mk_position_bounds[of U t ng m pos]
  show ?thesis by (simp add: finditer_def)
qed

lemma parse_by_question_markers_chain:
  assumes "parse_by_question_markers U t = Inr qs"
  shows "pairs_from 0 qs"
proof -
  from assms obtain qps where q: "question_positions U t = Inr qps"
    and r: "qs = (if qps = [] then [] else build_pairs t (unique_positions (- 1) (sort_key q_start qps)))"
    by (auto simp: parse_by_question_markers_def split: sum.splits if_splits)
  have "\<forall>pos \<in> set (sort_key q_start qps). q_start pos \<le> q_end pos \<and> q_end pos \<le> length t"
    using question_positions_bounds[OF q] by simp
  from unique_positions_chain[OF this, of "- 1"]
  have "qchain (length t) 0 (unique_positions (- 1) (sort_key q_start qps))" by simp
  from build_pairs_chain[OF this] r show ?thesis by simp
qed

subsection \<open>The code-block scan\<close>

lemma code_block_pair_bounds:
  "code_block_pair U t m = Inr (Some q) \<Longrightarrow> start_pos q = m_start m \<and> end_pos q = m_end m"
  by (auto simp: code_block_pair_def Let_def split: sum.splits option.splits list.splits prod.splits)

lemma code_block_pair_not_skip: "code_block_pair U t m \<noteq> Inr None"
  by (auto simp: code_block_pair_def Let_def split: sum.splits option.splits list.splits prod.splits)

lemma collect_code_blocks_chain:
  "spans_from n lo ms \<Longrightarrow> collect (map (code_block_pair U t) ms) = Inr qs \<Longrightarrow> pairs_from lo qs"
proof (induction ms arbitrary: lo qs)
  case Nil
  then show ?case by simp
next
  case (Cons m ms)
  from Cons.prems(2) obtain y ys where y: "code_block_pair U t m = Inr y"
    and ys: "collect (map (code_block_pair U t) ms) = Inr ys"
    and qs: "qs = (case y of None \<Rightarrow> ys | Some z \<Rightarrow> z # ys)"
    by (cases "code_block_pair U t m") (auto split: sum.splits)
  from y code_block_pair_not_skip[of U t m] obtain z where z: "y = Some z" by (cases y) auto
  from Cons.prems(1) have s: "lo \<le> m_start m" "m_start m \<le> m_end m" "spans_from n (m_end m) ms"
    by auto
  from Cons.IH[OF s(3) ys] code_block_pair_bounds[OF y[unfolded z]] s qs z
  show ?case by simp
qed

lemma parse_by_code_blocks_chain:
  "parse_by_code_blocks U t = Inr qs \<Longrightarrow> pairs_from 0 qs"
  unfolding parse_by_code_blocks_def finditer_def
  using collect_code_blocks_chain[OF finditer_from_spans] by blast

subsection \<open>The paragraph fallback\<close>

lemma ps_flush_chain:
  "para_inv st \<Longrightarrow> pairs_from 0 (ps_flush st) \<and> last_end 0 (ps_flush st) \<le> ps_position st"
  by (auto simp: para_inv_def ps_flush_def pairs_from_snoc last_end_def split: option.splits)

lemma para_step_inv: "para_inv st \<Longrightarrow> para_inv (para_step U st para)"
proof -
  assume i: "para_inv st"
  from ps_flush_chain[OF i] have f: "pairs_from 0 (ps_flush st)" "last_end 0 (ps_flush st) \<le> ps_position st"
    by auto
  from i f show ?thesis
    by (auto simp: para_step_def Let_def para_inv_def)
qed

lemma para_loop_inv: "para_inv st \<Longrightarrow> para_inv (foldl (para_step U) st paras)"
  by (induction paras arbitrary: st) (simp_all add: para_step_inv)

lemma parse_by_paragraphs_chain: "pairs_from 0 (parse_by_paragraphs U t)"
proof -
  have "para_inv \<lparr> ps_pairs = [], ps_question = None, ps_answer_parts = [], ps_start = 0,
      ps_position = 0 \<rparr>"
    by (simp add: para_inv_def last_end_def)
  from ps_flush_chain[OF para_loop_inv[OF this]] show ?thesis
    by (simp add: parse_by_paragraphs_def)
qed

lemma parse_chain: "parse U text sf pn = Inr qs \<Longrightarrow> pairs_from 0 qs"
  by (auto simp: parse_def Let_def pairs_from_map_meta split: if_splits sum.splits
      dest: parse_by_question_markers_chain parse_by_code_blocks_chain
      intro: parse_by_paragraphs_chain)

section \<open>Capture groups\<close>

lemma rx_ends_Look:
  "(e, c') \<in> set (rx_ends (Look r) t (p, c)) \<Longrightarrow>
     e = p \<and> (\<exists>e1. (e1, c') \<in> set (rx_ends r t (p, c)))"
  by (cases "rx_ends r t (p, c)") auto

lemma rx_ends_keeps:
  "(e, c') \<in> set (rx_ends r t (p, c)) \<Longrightarrow> c i \<noteq> None \<Longrightarrow> c' i \<noteq> None"
proof (induction r arbitrary: p c e c')
  case (Seq a b)
  from Seq.prems(1) obtain e1 c1 where 1: "(e1, c1) \<in> set (rx_ends a t (p, c))"
    and 2: "(e, c') \<in> set (rx_ends b t (e1, c1))" by auto
  from Seq.IH(2)[OF 2 Seq.IH(1)[OF 1 Seq.prems(2)]] show ?case .
next
  case (Grp j r)
  then show ?case by (auto split: if_splits)
next
  case (Look r)
  from rx_ends_Look[OF Look.prems(1)] obtain e1 where "(e1, c') \<in> set (rx_ends r t (p, c))"
    by blast
  from Look.IH[OF this Look.prems(2)] show ?case .
qed (auto split: if_splits)

lemma rx_ends_defines:
  "(e, c') \<in> set (rx_ends r t (p, c)) \<Longrightarrow> sets_group i r \<Longrightarrow> c' i \<noteq> None"
proof (induction r arbitrary: p c e c')
  case (Seq a b)
  from Seq.prems(1) obtain e1 c1 where 1: "(e1, c1) \<in> set (rx_ends a t (p, c))"
    and 2: "(e, c') \<in> set (rx_ends b t (e1, c1))" by auto
  show ?case
  proof (cases "sets_group i a")
    case True
    from rx_ends_keeps[OF 2 Seq.IH(1)[OF 1 True]] show ?thesis .
  next
    case False
    with Seq.prems(2) have "sets_group i b" by simp
    from Seq.IH(2)[OF 2 this] show ?thesis .
  qed
next
  case (Alt a b)
  then show ?case by auto
next
  case (Grp j r)
  then show ?case by (auto split: if_splits)
next
  case (Look r)
  from rx_ends_Look[OF Look.prems(1)] obtain e1 where "(e1, c') \<in> set (rx_ends r t (p, c))"
    by blast
  from Look.IH[OF this] Look.prems(2) show ?case by simp
qed auto

lemma take_takeWhile_all:
  "k \<le> length (takeWhile P xs) \<Longrightarrow> list_all P (take k xs)"
proof -
  assume k: "k \<le> length (takeWhile P xs)"
  have "take k xs = take k (takeWhile P xs)"
    using k by (induction xs arbitrary: k) (auto simp: take_Cons split: nat.splits if_splits)
  moreover have "list_all P (takeWhile P xs)" by (induction xs) auto
  ultimately show ?thesis
    by (metis list_all_iff in_set_takeD)
qed

lemma rep_group_cap:
  assumes "(e, c') \<in> set (rx_ends (Grp j (Rep P lo hi g)) t (p, c))"
  shows "c' j = Some (p, e) \<and> list_all P (slice t p e) \<and> lo \<le> e - p \<and> p \<le> e
         \<and> (\<forall>i. i \<noteq> j \<longrightarrow> c' i = c i)"
proof -
  from assms obtain k where k: "k \<in> set (rep_counts lo hi g (length (takeWhile P (drop p t))))"
    and e: "e = p + k" and c': "c' = c(j \<mapsto> (p, e))"
    by auto
  from rep_counts_le[OF k] have kl: "k \<le> length (takeWhile P (drop p t))" "lo \<le> k" by auto
  from take_takeWhile_all[OF kl(1)] have "list_all P (slice t p e)"
    by (simp add: slice_def e)
  with e c' kl show ?thesis by simp
qed

lemma rx_ends_class_group:
  "(e, c') \<in> set (rx_ends r t (p, c)) \<Longrightarrow> class_group D i r \<Longrightarrow> cap_ok D t (c i)
     \<Longrightarrow> cap_ok D t (c' i)"
proof (induction r arbitrary: p c e c')
  case (Seq a b)
  from Seq.prems(1) obtain e1 c1 where x: "(e1, c1) \<in> set (rx_ends a t (p, c))"
    and y: "(e, c') \<in> set (rx_ends b t (e1, c1))" by auto
  from Seq.prems(2) have ga: "class_group D i a" and gb: "class_group D i b" by auto
  from Seq.IH(2)[OF y gb Seq.IH(1)[OF x ga Seq.prems(3)]] show ?case .
next
  case (Alt a b)
  then show ?case by auto
next
  case (Grp j r)
  show ?case
  proof (cases "j = i")
    case True
    with Grp.prems(2) have "class_rep D r" by simp
    then obtain P lo hi g where r: "r = Rep P lo hi g" and pd: "\<forall>x. P x \<longrightarrow> D x"
      by (cases r) auto
    from rep_group_cap[OF Grp.prems(1)[unfolded r]]
    have a: "c' j = Some (p, e)" "list_all P (slice t p e)" by auto
    from a(2) pd have "list_all D (slice t p e)" by (auto simp: list_all_iff)
    with a(1) True show ?thesis by (simp add: cap_ok_def)
  next
    case False
    from Grp.prems(1) obtain c1 where 1: "(e, c1) \<in> set (rx_ends r t (p, c))"
      and 2: "c' = c1(j \<mapsto> (p, e))" by auto
    from False Grp.prems(2) have "class_group D i r" by simp
    from Grp.IH[OF 1 this Grp.prems(3)] 2 False show ?thesis by simp
  qed
next
  case (Look r)
  from rx_ends_Look[OF Look.prems(1)] obtain e1 where "(e1, c') \<in> set (rx_ends r t (p, c))"
    by blast
  from Look.IH[OF this] Look.prems show ?case by simp
qed (auto split: if_splits)

section \<open>Totality of the parser\<close>

lemma match_at_ends:
  "match_at r t p = Some m \<Longrightarrow> (m_end m, m_caps m) \<in> set (rx_ends r t (p, Map.empty)) \<and> m_start m = p"
  by (auto simp: match_at_def split: list.splits)

lemma finditer_from_match:
  "m \<in> set (finditer_from r t p0) \<Longrightarrow> \<exists>p. p \<le> length t \<and> match_at r t p = Some m"
proof (induction r t p0 rule: finditer_from.induct)
  case (1 r t p)
  show ?case
  proof (cases "length t < p")
    case True
    with 1(3) show ?thesis by simp
  next
    case False
    note F = False
    show ?thesis
    proof (cases "match_at r t p")
      case None
      with F 1(3) have "m \<in> set (finditer_from r t (Suc p))"
        by (subst (asm) finditer_from.simps) simp
      from 1(1)[OF F None this] show ?thesis .
    next
      case (Some m')
      with F 1(3) have "m = m' \<or> m \<in> set (finditer_from r t (if m_end m' \<le> p then Suc p else m_end m'))"
        by (subst (asm) finditer_from.simps) simp
      then show ?thesis
      proof
        assume "m = m'"
        with Some F show ?thesis by (intro exI[of _ p]) simp
      next
        assume "m \<in> set (finditer_from r t (if m_end m' \<le> p then Suc p else m_end m'))"
        from 1(2)[OF F Some this] show ?thesis .
      qed
    qed
  qed
qed

lemma finditer_sets_group:
  assumes "m \<in> set (finditer r t)" "sets_group i r"
  shows "\<exists>s e. m_caps m i = Some (s, e)"
proof -
  from finditer_from_match[OF assms(1)[unfolded finditer_def]] obtain p
    where "match_at r t p = Some m" by blast
  from match_at_ends[OF this] have e: "(m_end m, m_caps m) \<in> set (rx_ends r t (p, Map.empty))"
    by simp
  from rx_ends_defines[OF e assms(2)] show ?thesis by (cases "m_caps m i") auto
qed

lemma finditer_class_group:
  assumes "m \<in> set (finditer r t)" "class_group D i r"
  shows "cap_ok D t (m_caps m i)"
proof -
  from finditer_from_match[OF assms(1)[unfolded finditer_def]] obtain p
    where "match_at r t p = Some m" by blast
  from match_at_ends[OF this] have e: "(m_end m, m_caps m) \<in> set (rx_ends r t (p, Map.empty))"
    by simp
  have "cap_ok D t (Map.empty i)" by (simp add: cap_ok_def)
  from rx_ends_class_group[OF e assms(2) this] show ?thesis .
qed

lemma question_patterns_groups:
  "(r, ng) \<in> set (question_patterns U) \<Longrightarrow>
     ng \<le> 2 \<and> (ng = 2 \<longrightarrow> sets_group 2 r \<and> class_group (is_decimal U) 1 r)
     \<and> (ng = 1 \<longrightarrow> sets_group 1 r)"
  by (auto simp: question_patterns_def ws_star_def dot_plus_def dot_plus_lazy_def opt_def
      one_of_def lit_def)

lemma py_int_decimal:
  "s \<noteq> [] \<Longrightarrow> list_all (is_decimal U) s \<Longrightarrow> within_digit_limit U t \<Longrightarrow> length s \<le> length t
     \<Longrightarrow> \<exists>n. py_int U s = Inr n"
  by (auto simp: py_int_def within_digit_limit_def)

lemma length_slice_le: "length (slice t a b) \<le> length t"
  by (simp add: slice_def)

lemma length_strip_le: "length (strip s) \<le> length s"
proof -
  have "length (dropWhile is_space (rev (dropWhile is_space s))) \<le> length (rev (dropWhile is_space s))"
    by (rule length_dropWhile_le)
  also have "\<dots> \<le> length s" by (simp add: length_dropWhile_le)
  finally show ?thesis by (simp add: strip_def lstrip_def rstrip_def)
qed

lemma mk_position_total:
  assumes "(r, ng) \<in> set (question_patterns U)" "m \<in> set (finditer r t)"
      and lim: "within_digit_limit U t"
  shows "\<exists>x. mk_position U t ng m = Inr x"
proof -
  from question_patterns_groups[OF assms(1)] have g: "ng \<le> 2"
    "ng = 2 \<longrightarrow> sets_group 2 r \<and> class_group (is_decimal U) 1 r" "ng = 1 \<longrightarrow> sets_group 1 r"
    by auto
  consider "ng = 0" | "ng = 1" | "ng = 2" using g(1) by linarith
  then show ?thesis
  proof cases
    case 1
    then show ?thesis by (simp add: mk_position_def Let_def)
  next
    case 2
    with g(3) have "sets_group 1 r" by simp
    from finditer_sets_group[OF assms(2) this] obtain s e where "m_caps m 1 = Some (s, e)"
      by blast
    with 2 show ?thesis by (simp add: mk_position_def Let_def group_str_def)
  next
    case 3
    with g(2) have g2: "sets_group 2 r" "class_group (is_decimal U) 1 r" by simp_all
    from finditer_sets_group[OF assms(2) g2(1)] obtain s e where c2: "m_caps m 2 = Some (s, e)"
      by blast
    from finditer_class_group[OF assms(2) g2(2)]
    have c1: "cap_ok (is_decimal U) t (m_caps m 1)" .
    show ?thesis
    proof (cases "m_caps m 1")
      case None
      with 3 c2 show ?thesis by (simp add: mk_position_def Let_def group_str_def)
    next
      case (Some se)
      obtain s1 e1 where se: "se = (s1, e1)" by (cases se)
      from c1 Some se have d: "list_all (is_decimal U) (slice t s1 e1)" by (simp add: cap_ok_def)
      show ?thesis
      proof (cases "slice t s1 e1 \<noteq> [] \<and> list_all (is_digit U) (slice t s1 e1)")
        case True
        with py_int_decimal[OF _ d lim length_slice_le] obtain n where "py_int U (slice t s1 e1) = Inr n"
          by blast
        with 3 c2 Some se True show ?thesis
          by (simp add: mk_position_def Let_def group_str_def)
      next
        case False
        with 3 c2 Some se show ?thesis
          by (auto simp: mk_position_def Let_def group_str_def)
      qed
    qed
  qed
qed

lemma collect_total: "\<forall>r \<in> set rs. \<exists>x. r = Inr x \<Longrightarrow> \<exists>xs. collect rs = Inr xs"
proof (induction rs)
  case Nil
  then show ?case by simp
next
  case (Cons r rs)
  then obtain x xs where "r = Inr x" "collect rs = Inr xs" by auto
  then show ?case by simp
qed

lemma question_positions_total:
  "within_digit_limit U t \<Longrightarrow> \<exists>qps. question_positions U t = Inr qps"
  unfolding question_positions_def
  by (rule collect_total) (auto dest: mk_position_total)

lemma parse_by_question_markers_total:
  "within_digit_limit U t \<Longrightarrow> \<exists>qs. parse_by_question_markers U t = Inr qs"
  using question_positions_total[of U t]
  by (auto simp: parse_by_question_markers_def)

lemma code_block_pattern_groups:
  "sets_group 1 (code_block_pattern U) \<and> sets_group 2 (code_block_pattern U)"
  by (simp add: code_block_pattern_def)

lemma digits_search_total:
  assumes "finditer (Grp 1 (Rep (is_decimal U) 1 None True)) q = nm # rest"
      and lim: "within_digit_limit U t" "length q \<le> length t"
  shows "\<exists>ds n. group_str q nm 1 = Some ds \<and> py_int U ds = Inr n"
proof -
  have "nm \<in> set (finditer_from (Grp 1 (Rep (is_decimal U) 1 None True)) q 0)"
    using assms by (simp add: finditer_def)
  from finditer_from_match[OF this] obtain p
    where "match_at (Grp 1 (Rep (is_decimal U) 1 None True)) q p = Some nm" by blast
  from match_at_ends[OF this]
  have e: "(m_end nm, m_caps nm) \<in> set (rx_ends (Grp 1 (Rep (is_decimal U) 1 None True)) q (p, Map.empty))"
    and s: "m_start nm = p" by auto
  from rep_group_cap[OF e] have c: "m_caps nm 1 = Some (p, m_end nm)"
    "list_all (is_decimal U) (slice q p (m_end nm))" "1 \<le> m_end nm - p" by auto
  have "nm \<in> set (finditer_from (Grp 1 (Rep (is_decimal U) 1 None True)) q 0)"
    using assms by (simp add: finditer_def)
  from finditer_from_member_bounds[OF this] have b: "m_end nm \<le> length q" by simp
  from c(3) b have "slice q p (m_end nm) \<noteq> []" by (auto simp: slice_def)
  moreover have "length (slice q p (m_end nm)) \<le> length t"
    using length_slice_le[of q p "m_end nm"] lim(2) by linarith
  ultimately show ?thesis using py_int_decimal[OF _ c(2) lim(1)] c(1)
    by (auto simp: group_str_def)
qed

lemma code_block_pair_total:
  assumes "m \<in> set (finditer (code_block_pattern U) t)"
      and lim: "within_digit_limit U t"
  shows "\<exists>x. code_block_pair U t m = Inr x"
proof -
  from code_block_pattern_groups[of U]
  have g: "sets_group 1 (code_block_pattern U)" "sets_group 2 (code_block_pattern U)" by simp_all
  from finditer_sets_group[OF assms(1) g(1)] finditer_sets_group[OF assms(1) g(2)]
  obtain s1 e1 s2 e2 where c: "m_caps m 1 = Some (s1, e1)" "m_caps m 2 = Some (s2, e2)" by blast
  show ?thesis
  proof (cases "finditer (Grp 1 (Rep (is_decimal U) 1 None True)) (strip (slice t s1 e1))")
    case Nil
    with c show ?thesis by (simp add: code_block_pair_def group_str_def Let_def)
  next
    case (Cons nm rest)
    have "length (strip (slice t s1 e1)) \<le> length t"
      using length_strip_le[of "slice t s1 e1"] length_slice_le[of t s1 e1] by linarith
    from digits_search_total[OF Cons lim this] obtain ds n
      where "group_str (strip (slice t s1 e1)) nm 1 = Some ds" "py_int U ds = Inr n" by blast
    with c Cons show ?thesis by (simp add: code_block_pair_def group_str_def Let_def)
  qed
qed

lemma parse_by_code_blocks_total:
  "within_digit_limit U t \<Longrightarrow> \<exists>qs. parse_by_code_blocks U t = Inr qs"
  unfolding parse_by_code_blocks_def
  by (rule collect_total) (auto dest: code_block_pair_total)

text \<open>
  Every conversion of \<open>parse\<close> is applied to a non-empty string of decimal digits of the
  text, so within the digit limit \<open>parse\<close> returns.
\<close>

lemma parse_total:
  assumes "within_digit_limit U (parser_normalize_text text)"
  shows "\<exists>qs. parse U text sf pn = Inr qs"
proof -
  obtain m where m: "parse_by_question_markers U (parser_normalize_text text) = Inr m"
    using parse_by_question_markers_total[OF assms] by blast
  obtain b where b: "parse_by_code_blocks U (parser_normalize_text text) = Inr b"
    using parse_by_code_blocks_total[OF assms] by blast
  from m b show ?thesis by (simp add: parse_def Let_def)
qed

subsection \<open>Texts without structure\<close>

lemma para_loop_no_question:
  assumes "\<forall>para \<in> set paras. strip para \<noteq> [] \<longrightarrow> \<not> is_question U (strip para)"
      and "ps_pairs st = []" "ps_question st = None"
  shows "ps_pairs (foldl (para_step U) st paras) = [] \<and> ps_question (foldl (para_step U) st paras) = None"
  using assms
proof (induction paras arbitrary: st)
  case Nil
  then show ?case by simp
next
  case (Cons para paras)
  have "ps_pairs (para_step U st para) = [] \<and> ps_question (para_step U st para) = None"
    using Cons.prems by (auto simp: para_step_def Let_def)
  with Cons.IH[of "para_step U st para"] Cons.prems(1) show ?case by simp
qed

lemma parse_by_paragraphs_no_question:
  assumes "\<forall>para \<in> set (rx_split paragraph_sep t). strip para \<noteq> [] \<longrightarrow> \<not> is_question U (strip para)"
  shows "parse_by_paragraphs U t = []"
  using para_loop_no_question[OF assms, of "\<lparr> ps_pairs = [], ps_question = None,
      ps_answer_parts = [], ps_start = 0, ps_position = 0 \<rparr>"]
  by (simp add: parse_by_paragraphs_def ps_flush_def)

text \<open>
  When no strategy finds structure (the marker scan keeps no question position, the
  heading-and-code-block pattern has no match, and the paragraph fallback classifies no
  non-empty paragraph as a question) the list is empty.
\<close>

lemma parse_no_structure:
  assumes a: "question_positions U (parser_normalize_text text) = Inr []"
      and b: "finditer (code_block_pattern U) (parser_normalize_text text) = []"
      and c: "\<forall>para \<in> set (rx_split paragraph_sep (parser_normalize_text text)).
            strip para \<noteq> [] \<longrightarrow> \<not> is_question U (strip para)"
  shows "parse U text sf pn = Inr []"
  using a b parse_by_paragraphs_no_question[OF c]
  by (simp add: parse_def Let_def parse_by_question_markers_def parse_by_code_blocks_def)

section \<open>Answer markers\<close>

lemma finditer_from_none:
  "\<forall>q \<ge> p. match_at r t q = None \<Longrightarrow> finditer_from r t p = []"
proof (induction r t p rule: finditer_from.induct)
  case (1 r t p)
  show ?case
  proof (cases "length t < p")
    case True
    then show ?thesis by simp
  next
    case False
    from 1(3) have n: "match_at r t p = None" by simp
    from 1(3) have "\<forall>q \<ge> Suc p. match_at r t q = None" by simp
    from 1(1)[OF False n this] False n show ?thesis by (subst finditer_from.simps) simp
  qed
qed

lemma rx_ends_shift:
  "simple_rx r \<Longrightarrow> rx_ends r t (p + q, c) = map (shift_end p) (rx_ends r (drop p t) (q, c))"
proof (induction r arbitrary: q c)
  case (Chr P)
  show ?case
  proof (cases "p \<le> length t")
    case True
    then have "(drop p t) ! q = t ! (p + q)" by simp
    with True show ?thesis by (auto simp: shift_end_def)
  next
    case False
    then show ?thesis by (simp add: shift_end_def)
  qed
next
  case (Rep P lo hi g)
  have "drop (p + q) t = drop q (drop p t)" by (simp add: add.commute)
  then show ?case by (simp add: shift_end_def comp_def)
next
  case (Seq a b)
  then have a: "\<And>q c. rx_ends a t (p + q, c) = map (shift_end p) (rx_ends a (drop p t) (q, c))"
    and b: "\<And>q c. rx_ends b t (p + q, c) = map (shift_end p) (rx_ends b (drop p t) (q, c))"
    by simp_all
  have "rx_ends b t (shift_end p x) = map (shift_end p) (rx_ends b (drop p t) x)" for x
    using b[of "fst x" "snd x"] by (simp add: shift_end_def)
  then show ?case by (simp add: a comp_def map_concat)
qed simp_all

lemma rx_ends_drop:
  "simple_rx r \<Longrightarrow> rx_ends r t (p, c) = map (shift_end p) (rx_ends r (drop p t) (0, c))"
  using rx_ends_shift[of r t p 0 c] by simp

lemma ends_chr_seq:
  "simple_rx R \<Longrightarrow> rx_ends (Seq (Chr P) R) s (0, c)
     = (case s of [] \<Rightarrow> [] | x # r \<Rightarrow> if P x then map (shift_end 1) (rx_ends R r (0, c)) else [])"
  using rx_ends_shift[of R s 1 0 c] by (cases s) simp_all

lemma ws_len_le: "ws_len s \<le> length s"
  by (simp add: ws_len_def length_takeWhile_le)

lemma ws_len_space: "k < ws_len s \<Longrightarrow> is_space (s ! k)"
proof -
  assume k: "k < ws_len s"
  then have "takeWhile is_space s ! k \<in> set (takeWhile is_space s)" by (simp add: ws_len_def)
  then have "is_space (takeWhile is_space s ! k)" by (rule set_takeWhileD[THEN conjunct2])
  with k show ?thesis by (simp add: ws_len_def takeWhile_nth)
qed

lemma ws_len_next: "drop (ws_len s) s = x # r \<Longrightarrow> \<not> is_space x"
proof -
  assume d: "drop (ws_len s) s = x # r"
  then have l: "ws_len s < length s" by (cases "ws_len s < length s") simp_all
  then have "\<not> is_space (s ! ws_len s)" unfolding ws_len_def by (rule nth_length_takeWhile)
  moreover from d l have "s ! ws_len s = x" by (metis nth_via_drop)
  ultimately show ?thesis by simp
qed

lemma ends_ws_all:
  "rx_ends ws_star s (0, c) = map (\<lambda>k. (k, c)) (rev [0..<Suc (ws_len s)])"
  by (simp add: ws_star_def rep_counts_def ws_len_def Let_def)

lemma ends_ws_first: "\<exists>tl. rx_ends ws_star s (0, c) = (ws_len s, c) # tl"
  by (simp add: ends_ws_all)

lemma concat_all_Nil: "(\<And>x. x \<in> set xs \<Longrightarrow> f x = []) \<Longrightarrow> concat (map f xs) = []"
  by (induction xs) auto

lemma ends_ws_chr_seq:
  assumes "simple_rx R" "\<And>x. P x \<Longrightarrow> \<not> is_space x"
  shows "rx_ends (Seq ws_star (Seq (Chr P) R)) s (0, c)
     = (case drop (ws_len s) s of
          [] \<Rightarrow> []
        | x # r \<Rightarrow> if P x then map (shift_end (ws_len s + 1)) (rx_ends R r (0, c)) else [])"
proof -
  let ?n = "ws_len s"
  let ?X = "Seq (Chr P) R"
  have sx: "simple_rx ?X" using assms(1) by simp
  have small: "rx_ends ?X s (k, c) = []" if "k < ?n" for k
  proof -
    from that ws_len_le[of s] have "k < length s" by linarith
    moreover from ws_len_space[OF that] assms(2) have "\<not> P (s ! k)" by blast
    ultimately show ?thesis by simp
  qed
  have "rx_ends (Seq ws_star ?X) s (0, c)
          = concat (map (\<lambda>k. rx_ends ?X s (k, c)) (rev [0..<Suc ?n]))"
    by (simp only: rx_ends.simps(7) ends_ws_all map_map comp_def)
  also have "\<dots> = rx_ends ?X s (?n, c) @ concat (map (\<lambda>k. rx_ends ?X s (k, c)) (rev [0..<?n]))"
    by simp
  also have "concat (map (\<lambda>k. rx_ends ?X s (k, c)) (rev [0..<?n])) = []"
  proof (rule concat_all_Nil)
    fix k assume "k \<in> set (rev [0..<?n])"
    then have "k < ?n" by simp
    then show "rx_ends ?X s (k, c) = []" by (rule small)
  qed
  finally have "rx_ends (Seq ws_star ?X) s (0, c) = rx_ends ?X s (?n, c)" by simp
  also have "\<dots> = map (shift_end ?n) (rx_ends ?X (drop ?n s) (0, c))"
    by (rule rx_ends_drop[OF sx])
  also have "\<dots> = (case drop ?n s of
          [] \<Rightarrow> []
        | x # r \<Rightarrow> if P x then map (shift_end (?n + 1)) (rx_ends R r (0, c)) else [])"
  proof (cases "drop ?n s")
    case Nil
    then show ?thesis by (simp only: ends_chr_seq[OF assms(1)]) simp
  next
    case (Cons x r)
    then show ?thesis
      by (simp only: ends_chr_seq[OF assms(1)]) (simp add: shift_end_def comp_def)
  qed
  finally show ?thesis .
qed

lemma ws_star_simple [simp]: "simple_rx ws_star" "simple_rx (opt ps)" "simple_rx (lit x)"
  "simple_rx (one_of xs)"
  by (simp_all add: ws_star_def opt_def lit_def one_of_def)

lemma first_end_chr_seq:
  "simple_rx R \<Longrightarrow> first_end (Seq (Chr P) R) s c
     = (case s of [] \<Rightarrow> None
        | x # r \<Rightarrow> if P x then map_option (shift_end 1) (first_end R r c) else None)"
  unfolding first_end_def
  by (simp only: ends_chr_seq) (auto split: list.splits)

lemma first_end_ws_chr_seq:
  assumes "simple_rx R" "\<And>x. P x \<Longrightarrow> \<not> is_space x"
  shows "first_end (Seq ws_star (Seq (Chr P) R)) s c
     = (case drop (ws_len s) s of
          [] \<Rightarrow> None
        | x # r \<Rightarrow> if P x then map_option (shift_end (ws_len s + 1)) (first_end R r c) else None)"
  unfolding first_end_def
  by (simp only: ends_ws_chr_seq[OF assms]) (auto split: list.splits)

lemma first_end_ws: "first_end ws_star s c = Some (ws_len s, c)"
  using ends_ws_first[of s c] by (auto simp: first_end_def)

lemma ends_opt:
  "rx_ends (opt ps) s (0, c)
     = (case s of [] \<Rightarrow> [(0, c)] | x # r \<Rightarrow> if x \<in> set ps then [(1, c), (0, c)] else [(0, c)])"
proof (cases s)
  case Nil
  then show ?thesis by (simp add: opt_def rep_counts_def)
next
  case (Cons x r)
  show ?thesis
  proof (cases "x \<in> set ps")
    case True
    then have "min 1 (length (takeWhile (\<lambda>x. x \<in> set ps) s)) = 1" using Cons by simp
    then show ?thesis using Cons True by (simp add: opt_def rep_counts_def Let_def)
  next
    case False
    then show ?thesis using Cons by (simp add: opt_def rep_counts_def)
  qed
qed

lemma first_end_seq:
  assumes "rx_ends a s (0, c) = x # xs" "simple_rx b" "first_end b (drop (fst x) s) (snd x) = Some y"
  shows "first_end (Seq a b) s c = Some (shift_end (fst x) y)"
proof -
  from assms(3) obtain ys where "rx_ends b (drop (fst x) s) (0, snd x) = y # ys"
    by (auto simp: first_end_def split: list.splits)
  then have "rx_ends b s x = shift_end (fst x) y # map (shift_end (fst x)) ys"
    using rx_ends_drop[OF assms(2), of s "fst x" "snd x"] by simp
  then show ?thesis using assms(1) by (simp add: first_end_def)
qed

lemma first_end_opt_ws:
  assumes "\<And>x. x \<in> set ps \<Longrightarrow> \<not> is_space x"
  shows "first_end (Seq (opt ps) ws_star) s c
     = (case s of
          [] \<Rightarrow> Some (0, c)
        | x # r \<Rightarrow> if x \<in> set ps then Some (1 + ws_len r, c) else Some (ws_len s, c))"
proof (cases s)
  case Nil
  have "rx_ends (opt ps) [] (0, c) = (0, c) # []" by (simp add: ends_opt)
  from first_end_seq[OF this, of ws_star "(0, c)"] Nil show ?thesis
    by (simp add: first_end_ws shift_end_def ws_len_def)
next
  case (Cons x r)
  show ?thesis
  proof (cases "x \<in> set ps")
    case True
    have "rx_ends (opt ps) s (0, c) = (1, c) # [(0, c)]" using Cons True by (simp add: ends_opt)
    from first_end_seq[OF this, of ws_star "(ws_len r, c)"] Cons True show ?thesis
      by (simp add: first_end_ws shift_end_def)
  next
    case False
    have "rx_ends (opt ps) s (0, c) = (0, c) # []" using Cons False by (simp add: ends_opt)
    from first_end_seq[OF this, of ws_star "(ws_len s, c)"] Cons False show ?thesis
      by (simp add: first_end_ws shift_end_def)
  qed
qed

lemma punct_not_space: "x \<in> set answer_punct \<Longrightarrow> \<not> is_space x"
  by (auto simp: answer_punct_def is_space_def)

lemma first_end_punct_body:
  "first_end (Seq (one_of I) (Seq ws_star (Seq (one_of answer_punct) ws_star))) s c
     = (if punct_marker_len I s = 0 then None else Some (punct_marker_len I s, c))"
proof -
  have 1: "first_end (Seq (one_of I) (Seq ws_star (Seq (one_of answer_punct) ws_star))) s c
     = (case s of [] \<Rightarrow> None
        | x # r \<Rightarrow> if x \<in> set I
            then map_option (shift_end 1)
                   (first_end (Seq ws_star (Seq (one_of answer_punct) ws_star)) r c)
            else None)"
    unfolding one_of_def[of I] by (rule first_end_chr_seq) simp
  have 2: "first_end (Seq ws_star (Seq (one_of answer_punct) ws_star)) r c
     = (case drop (ws_len r) r of
          [] \<Rightarrow> None
        | x # r2 \<Rightarrow> if x \<in> set answer_punct
                     then map_option (shift_end (ws_len r + 1)) (first_end ws_star r2 c) else None)" for r
    unfolding one_of_def[of answer_punct]
    by (rule first_end_ws_chr_seq) (simp_all add: punct_not_space)
  show ?thesis
    unfolding 1 2 first_end_ws punct_marker_len_def
    by (auto simp: shift_end_def split: list.splits)
qed

lemma first_end_opt_seq:
  assumes "simple_rx R"
  shows "first_end (Seq (opt ps) R) s c
     = (case s of
          [] \<Rightarrow> first_end R s c
        | x # r \<Rightarrow> if x \<in> set ps
                    then (case first_end R r c of Some y \<Rightarrow> Some (shift_end 1 y)
                          | None \<Rightarrow> first_end R s c)
                    else first_end R s c)"
proof (cases s)
  case Nil
  then show ?thesis by (simp add: first_end_def ends_opt del: rx_ends.simps(2))
next
  case (Cons x r)
  show ?thesis
  proof (cases "x \<in> set ps")
    case False
    have "rx_ends (Seq (opt ps) R) s (0, c) = rx_ends R s (0, c)"
      by (simp only: rx_ends.simps(7) ends_opt) (simp add: Cons False)
    with Cons False show ?thesis by (simp add: first_end_def)
  next
    case True
    have "rx_ends (Seq (opt ps) R) s (0, c) = rx_ends R s (1, c) @ rx_ends R s (0, c)"
      by (simp only: rx_ends.simps(7) ends_opt) (simp add: Cons True)
    also have "rx_ends R s (1, c) = map (shift_end 1) (rx_ends R r (0, c))"
      using rx_ends_drop[OF assms, of s 1 c] Cons by simp
    finally show ?thesis using Cons True
      by (auto simp: first_end_def split: list.splits)
  qed
qed

lemma first_end_lit_ws:
  "first_end (Seq (lit x) ws_star) s c
     = (case s of [] \<Rightarrow> None | y # r \<Rightarrow> if y = x then Some (1 + ws_len r, c) else None)"
  unfolding lit_def
  by (simp only: first_end_chr_seq[OF ws_star_simple(1)] first_end_ws)
     (auto simp: shift_end_def split: list.splits)

lemma first_end_bracket_body:
  "first_end (Seq (lit 12304) (Seq (lit 31572) (Seq (opt [26696]) (Seq (lit 12305) ws_star)))) s c
     = (if bracket_marker_len s = 0 then None else Some (bracket_marker_len s, c))"
proof -
  let ?R = "Seq (lit 12305) ws_star"
  have r: "simple_rx ?R" "simple_rx (Seq (opt [26696]) ?R)"
    "simple_rx (Seq (lit 31572) (Seq (opt [26696]) ?R))" by simp_all
  have 1: "first_end (Seq (lit 12304) (Seq (lit 31572) (Seq (opt [26696]) ?R))) s0 c
      = (case s0 of [] \<Rightarrow> None
         | a # s1 \<Rightarrow> if a = 12304
             then map_option (shift_end 1) (first_end (Seq (lit 31572) (Seq (opt [26696]) ?R)) s1 c)
             else None)" for s0
    unfolding lit_def[of 12304] by (rule first_end_chr_seq) (use r in simp)
  have 2: "first_end (Seq (lit 31572) (Seq (opt [26696]) ?R)) s1 c
      = (case s1 of [] \<Rightarrow> None
         | b # s2 \<Rightarrow> if b = 31572
             then map_option (shift_end 1) (first_end (Seq (opt [26696]) ?R) s2 c)
             else None)" for s1
    unfolding lit_def[of 31572] by (rule first_end_chr_seq) (use r in simp)
  note 3 = first_end_opt_seq[OF r(1), of "[26696]"]
  show ?thesis
  proof (cases s)
    case Nil
    then show ?thesis by (simp add: 1 bracket_marker_len_def)
  next
    case s: (Cons a s1)
    show ?thesis
    proof (cases s1)
      case Nil
      with s show ?thesis by (simp add: 1 2 bracket_marker_len_def)
    next
      case s1: (Cons b s2)
      show ?thesis
      proof (cases s2)
        case Nil
        with s s1 show ?thesis by (simp add: 1 2 3 first_end_lit_ws bracket_marker_len_def)
      next
        case s2: (Cons x s3)
        show ?thesis
        proof (cases s3)
          case Nil
          with s s1 s2 show ?thesis
            by (simp add: 1 2 3 first_end_lit_ws bracket_marker_len_def shift_end_def ws_len_def)
        next
          case s3: (Cons y s4)
          with s s1 s2 show ?thesis
            by (simp add: 1 2 3 first_end_lit_ws bracket_marker_len_def shift_end_def)
        qed
      qed
    qed
  qed
qed

lemma ws_len_nonspace: "\<not> is_space x \<Longrightarrow> ws_len (x # r) = 0"
  by (simp add: ws_len_def)

lemma first_end_ws_opt_ws:
  "first_end (Seq ws_star (Seq (opt answer_punct) ws_star)) r c
     = (case drop (ws_len r) r of
          [] \<Rightarrow> Some (ws_len r, c)
        | p # r2 \<Rightarrow> if p \<in> set answer_punct then Some (ws_len r + 1 + ws_len r2, c)
                     else Some (ws_len r, c))"
proof -
  obtain tl where w: "rx_ends ws_star r (0, c) = (ws_len r, c) # tl"
    using ends_ws_first by blast
  have x: "simple_rx (Seq (opt answer_punct) ws_star)" by simp
  note o = first_end_opt_ws[of answer_punct "drop (ws_len r) r" c, OF punct_not_space]
  show ?thesis
  proof (cases "drop (ws_len r) r")
    case Nil
    with o have "first_end (Seq (opt answer_punct) ws_star) (drop (fst (ws_len r, c)) r) (snd (ws_len r, c))
        = Some (0, c)" by simp
    from first_end_seq[OF w x this] Nil show ?thesis by (simp add: shift_end_def)
  next
    case (Cons p r2)
    from ws_len_next[OF Cons] have ns: "\<not> is_space p" .
    show ?thesis
    proof (cases "p \<in> set answer_punct")
      case True
      with o Cons
      have "first_end (Seq (opt answer_punct) ws_star) (drop (fst (ws_len r, c)) r) (snd (ws_len r, c))
        = Some (1 + ws_len r2, c)" by simp
      from first_end_seq[OF w x this] Cons True show ?thesis by (simp add: shift_end_def)
    next
      case False
      with o Cons ns
      have "first_end (Seq (opt answer_punct) ws_star) (drop (fst (ws_len r, c)) r) (snd (ws_len r, c))
        = Some (0, c)" by (simp add: ws_len_nonspace)
      from first_end_seq[OF w x this] Cons False show ?thesis by (simp add: shift_end_def)
    qed
  qed
qed

lemma first_end_jie_body:
  "first_end (Seq (lit 35299) (Seq (one_of [31572, 26512]) (Seq ws_star (Seq (opt answer_punct) ws_star)))) s c
     = (if jie_marker_len s = 0 then None else Some (jie_marker_len s, c))"
proof -
  let ?R = "Seq ws_star (Seq (opt answer_punct) ws_star)"
  have r: "simple_rx ?R" "simple_rx (Seq (one_of [31572, 26512]) ?R)" by simp_all
  have 1: "first_end (Seq (lit 35299) (Seq (one_of [31572, 26512]) ?R)) s c
      = (case s of [] \<Rightarrow> None
         | a # s1 \<Rightarrow> if a = 35299
             then map_option (shift_end 1) (first_end (Seq (one_of [31572, 26512]) ?R) s1 c)
             else None)"
    unfolding lit_def[of 35299] by (rule first_end_chr_seq) (use r in simp)
  have 2: "first_end (Seq (one_of [31572, 26512]) ?R) s1 c
      = (case s1 of [] \<Rightarrow> None
         | b # s2 \<Rightarrow> if b \<in> set [31572, 26512]
             then map_option (shift_end 1) (first_end ?R s2 c)
             else None)" for s1
    unfolding one_of_def[of "[31572, 26512]"] by (rule first_end_chr_seq) (use r in simp)
  show ?thesis
    unfolding 1 2 first_end_ws_opt_ws jie_marker_len_def
    by (auto simp: shift_end_def split: list.splits)
qed

lemma match_at_marker:
  assumes b: "\<And>s c. first_end body s c = (if len s = 0 then None else Some (len s, c))"
      and sb: "simple_rx body" and p: "p \<le> length t"
  shows "match_at (Seq Bol body) t p
     = (if line_start t p \<and> 0 < len (drop p t)
        then Some \<lparr> m_start = p, m_end = p + len (drop p t), m_caps = Map.empty \<rparr>
        else None)"
proof -
  have 1: "rx_ends (Seq Bol body) t (p, Map.empty)
      = (if line_start t p then map (shift_end p) (rx_ends body (drop p t) (0, Map.empty)) else [])"
    using p rx_ends_drop[OF sb, of t p Map.empty] by (simp add: line_start_def)
  show ?thesis
  proof (cases "line_start t p")
    case False
    with 1 show ?thesis by (simp add: match_at_def)
  next
    case True
    show ?thesis
    proof (cases "len (drop p t) = 0")
      case z: True
      with b[of "drop p t" Map.empty] have "rx_ends body (drop p t) (0, Map.empty) = []"
        by (simp add: first_end_def split: list.splits)
      with 1 z show ?thesis by (simp add: match_at_def)
    next
      case nz: False
      with b[of "drop p t" Map.empty] obtain tl where
        "rx_ends body (drop p t) (0, Map.empty) = (len (drop p t), Map.empty) # tl"
        by (auto simp: first_end_def split: list.splits)
      with 1 True nz show ?thesis by (simp add: match_at_def shift_end_def)
    qed
  qed
qed

lemma punct_marker_len_le: "punct_marker_len I s \<le> length s"
proof (cases s)
  case Nil
  then show ?thesis by (simp add: punct_marker_len_def)
next
  case (Cons c r)
  show ?thesis
  proof (cases "drop (ws_len r) r")
    case Nil
    with Cons show ?thesis by (simp add: punct_marker_len_def)
  next
    case d: (Cons p r2)
    have "length (drop (ws_len r) r) = length (p # r2)" by (simp only: d)
    then have "length r - ws_len r = Suc (length r2)" by simp
    with ws_len_le[of r2] have "ws_len r + 1 + ws_len r2 \<le> length r" by linarith
    with Cons d show ?thesis by (simp add: punct_marker_len_def)
  qed
qed

lemma bracket_marker_len_le: "bracket_marker_len s \<le> length s"
proof -
  have "4 + ws_len (drop 4 s) \<le> length s" if "take 4 s = [12304, 31572, 26696, 12305]"
  proof -
    have "length (take 4 s) = length [12304, 31572, 26696, 12305::nat]" by (simp only: that)
    then have "4 \<le> length s" by simp
    with ws_len_le[of "drop 4 s"] show ?thesis by simp
  qed
  moreover have "3 + ws_len (drop 3 s) \<le> length s" if "take 3 s = [12304, 31572, 12305]"
  proof -
    have "length (take 3 s) = length [12304, 31572, 12305::nat]" by (simp only: that)
    then have "3 \<le> length s" by simp
    with ws_len_le[of "drop 3 s"] show ?thesis by simp
  qed
  ultimately show ?thesis by (simp add: bracket_marker_len_def)
qed

lemma jie_marker_len_le: "jie_marker_len s \<le> length s"
proof (cases s)
  case Nil
  then show ?thesis by (simp add: jie_marker_len_def)
next
  case s: (Cons c s1)
  show ?thesis
  proof (cases s1)
    case Nil
    with s show ?thesis by (simp add: jie_marker_len_def)
  next
    case s1: (Cons x r)
    show ?thesis
    proof (cases "drop (ws_len r) r")
      case Nil
      with s s1 ws_len_le[of r] show ?thesis by (simp add: jie_marker_len_def)
    next
      case d: (Cons p r2)
      have "length (drop (ws_len r) r) = length (p # r2)" by (simp only: d)
      then have "length r - ws_len r = Suc (length r2)" by simp
      with ws_len_le[of r2] ws_len_le[of r] have "ws_len r + 1 + ws_len r2 \<le> length r" by linarith
      with s s1 d ws_len_le[of r] show ?thesis by (simp add: jie_marker_len_def)
    qed
  qed
qed

lemma sub_spans_scan:
  assumes M: "\<And>p. p \<le> length t \<Longrightarrow> match_at r t p
     = (if line_start t p \<and> 0 < len (drop p t)
        then Some \<lparr> m_start = p, m_end = p + len (drop p t), m_caps = Map.empty \<rparr>
        else None)"
      and L: "\<And>s. len s \<le> length s"
  shows "q \<le> p \<Longrightarrow> p \<le> length t \<Longrightarrow>
     sub_spans t [] q (finditer_from r t p)
       = slice t q p @ remove_markers len (line_start t p) (drop p t)"
  using M
proof (induction r t p arbitrary: q rule: finditer_from.induct)
  case (1 r t p)
  note M = "1.prems"(3)
  from "1.prems" have qp: "q \<le> p" and pl: "p \<le> length t" by simp_all
  then have nl: "\<not> length t < p" by simp
  show ?case
  proof (cases "p = length t")
    case True
    then have d: "drop p t = []" by simp
    have "len [] = 0" using L[of "[]"] by simp
    with M[OF pl] d have "match_at r t p = None" by simp
    moreover have "finditer_from r t (Suc p) = []" using True by simp
    ultimately have "finditer_from r t p = []" using nl by (subst finditer_from.simps) simp
    with True d show ?thesis by (simp add: slice_def remove_markers.simps)
  next
    case False
    with pl have lt: "p < length t" by simp
    then have d: "drop p t = t ! p # drop (Suc p) t" by (simp add: Cons_nth_drop_Suc)
    show ?thesis
    proof (cases "line_start t p \<and> 0 < len (drop p t)")
      case no: False
      with M[OF pl] have n: "match_at r t p = None" by simp
      then have f: "finditer_from r t p = finditer_from r t (Suc p)"
        using nl by (subst finditer_from.simps) simp
      have ih: "sub_spans t [] q (finditer_from r t (Suc p))
          = slice t q (Suc p) @ remove_markers len (line_start t (Suc p)) (drop (Suc p) t)"
        using "1.IH"(1)[OF nl n, of q] qp lt M by (simp del: finditer_from.simps)
      have s: "slice t q (Suc p) = slice t q p @ [t ! p]"
      proof -
        have "take (Suc p - q) (drop q t) = take (p - q) (drop q t) @ [drop q t ! (p - q)]"
          using qp lt by (simp add: Suc_diff_le take_Suc_conv_app_nth)
        with qp lt show ?thesis by (simp add: slice_def)
      qed
      have r: "remove_markers len (line_start t p) (drop p t)
            = t ! p # remove_markers len (t ! p = 10) (drop (Suc p) t)"
        using no d by (subst remove_markers.simps) auto
      have ls: "line_start t (Suc p) = (t ! p = 10)" by (simp add: line_start_def)
      have "sub_spans t [] q (finditer_from r t p)
              = slice t q (Suc p) @ remove_markers len (line_start t (Suc p)) (drop (Suc p) t)"
        by (simp only: f ih)
      also have "\<dots> = slice t q p @ t ! p # remove_markers len (t ! p = 10) (drop (Suc p) t)"
        by (simp only: s ls append_assoc append_Cons append_Nil)
      finally show ?thesis by (simp only: r)
    next
      case yes: True
      let ?e = "p + len (drop p t)"
      let ?m = "\<lparr> m_start = p, m_end = ?e, m_caps = Map.empty \<rparr>"
      from yes M[OF pl] have m: "match_at r t p = Some ?m" by simp
      from yes have gt: "\<not> m_end ?m \<le> p" by simp
      have el: "?e \<le> length t" using L[of "drop p t"] pl by simp
      from m gt have f: "finditer_from r t p = ?m # finditer_from r t ?e"
        using nl by (subst finditer_from.simps) simp
      have ih: "sub_spans t [] ?e (finditer_from r t ?e)
          = slice t ?e ?e @ remove_markers len (line_start t ?e) (drop ?e t)"
        using "1.IH"(2)[OF nl m, of ?e] gt el M by (simp del: finditer_from.simps)
      have k: "len (drop p t) \<le> length (drop p t)" by (rule L)
      have "drop p t ! (len (drop p t) - 1) = t ! (?e - 1)"
        using yes pl by simp
      moreover have "line_start t ?e = (t ! (?e - 1) = 10)" using yes by (simp add: line_start_def)
      moreover have "drop (len (drop p t)) (drop p t) = drop ?e t" by (simp add: add.commute)
      moreover have ne: "drop p t \<noteq> []" using lt by simp
      moreover have "remove_markers len (line_start t p) (drop p t)
            = remove_markers len (drop p t ! (len (drop p t) - 1) = 10)
                (drop (len (drop p t)) (drop p t))"
        using yes k ne by (subst remove_markers.simps) (simp del: drop_drop)
      ultimately have r: "remove_markers len (line_start t p) (drop p t)
            = remove_markers len (line_start t ?e) (drop ?e t)"
        by (simp only:)
      have "sub_spans t [] q (finditer_from r t p)
              = slice t q p @ sub_spans t [] ?e (finditer_from r t ?e)"
        by (simp only: f sub_spans.simps rmatch.simps append_Nil)
      also have "\<dots> = slice t q p @ remove_markers len (line_start t ?e) (drop ?e t)"
        by (simp only: ih slice_def diff_self_eq_0 take_0 append_Nil)
      finally show ?thesis by (simp only: r)
    qed
  qed
qed

lemma rx_sub_scan:
  assumes b: "\<And>s c. first_end body s c = (if len s = 0 then None else Some (len s, c))"
      and sb: "simple_rx body" and L: "\<And>s. len s \<le> length s"
  shows "rx_sub (Seq Bol body) [] t = remove_markers len True t"
proof -
  have "sub_spans t [] 0 (finditer_from (Seq Bol body) t 0)
       = slice t 0 0 @ remove_markers len (line_start t 0) (drop 0 t)"
    by (rule sub_spans_scan[OF match_at_marker[OF b sb] L]) simp_all
  then show ?thesis by (simp add: rx_sub_def finditer_def slice_def line_start_def)
qed

lemma rx_sub_patterns:
  "rx_sub pat_a [] t = remove_markers (punct_marker_len [65, 97]) True t"
  "rx_sub pat_da [] t = remove_markers (punct_marker_len [31572]) True t"
  "rx_sub pat_bracket [] t = remove_markers bracket_marker_len True t"
  "rx_sub pat_jie [] t = remove_markers jie_marker_len True t"
proof -
  show "rx_sub pat_a [] t = remove_markers (punct_marker_len [65, 97]) True t"
    unfolding pat_a_def rx_seq.simps
    by (rule rx_sub_scan[OF first_end_punct_body _ punct_marker_len_le]) simp
  have "lit 31572 = one_of [31572]" by (simp add: lit_def one_of_def)
  then show "rx_sub pat_da [] t = remove_markers (punct_marker_len [31572]) True t"
    unfolding pat_da_def rx_seq.simps
    by (simp only:) (rule rx_sub_scan[OF first_end_punct_body _ punct_marker_len_le], simp)
  show "rx_sub pat_bracket [] t = remove_markers bracket_marker_len True t"
    unfolding pat_bracket_def rx_seq.simps
    by (rule rx_sub_scan[OF first_end_bracket_body _ bracket_marker_len_le]) simp
  show "rx_sub pat_jie [] t = remove_markers jie_marker_len True t"
    unfolding pat_jie_def rx_seq.simps
    by (rule rx_sub_scan[OF first_end_jie_body _ jie_marker_len_le]) simp
qed

lemma dropWhile_dropWhile: "(\<And>x. P x \<Longrightarrow> Q x) \<Longrightarrow> dropWhile Q (dropWhile P xs) = dropWhile Q xs"
  by (induction xs) auto

lemma strip_lstrip_newlines: "strip (dropWhile (\<lambda>c. c = 10) t) = strip t"
proof -
  have "dropWhile is_space (dropWhile (\<lambda>c. c = 10) t) = dropWhile is_space t"
    by (rule dropWhile_dropWhile) (simp add: is_space_def)
  then show ?thesis by (simp add: strip_def lstrip_def)
qed

lemma answer_start_patterns_eq: "answer_start_patterns = [pat_a, pat_da, pat_bracket, pat_jie]"
  by (simp add: answer_start_patterns_def pat_a_def pat_da_def pat_bracket_def pat_jie_def)

lemma clean_answer_text_scan:
  "clean_answer_text t = strip (foldl (\<lambda>s len. remove_markers len True s) t marker_lens)"
  by (simp add: clean_answer_text_def answer_start_patterns_eq Let_def strip_lstrip_newlines
        rx_sub_patterns marker_lens_def)

lemma remove_markers_free:
  assumes "\<forall>q < length t. line_start t q \<longrightarrow> len (drop q t) = 0"
  shows "p \<le> length t \<Longrightarrow> (bol \<longrightarrow> line_start t p)
           \<Longrightarrow> remove_markers len bol (drop p t) = drop p t"
proof (induction "length t - p" arbitrary: p bol)
  case 0
  then have "drop p t = []" by simp
  then show ?case by (simp add: remove_markers.simps)
next
  case (Suc n)
  then have lt: "p < length t" by simp
  then have d: "drop p t = t ! p # drop (Suc p) t" by (simp add: Cons_nth_drop_Suc)
  have "\<not> (bol \<and> 0 < len (drop p t))" using assms lt Suc.prems(2) by auto
  then have "remove_markers len bol (drop p t)
        = hd (drop p t) # remove_markers len (hd (drop p t) = 10) (tl (drop p t))"
    using d by (subst remove_markers.simps) auto
  also have "\<dots> = t ! p # remove_markers len (t ! p = 10) (drop (Suc p) t)"
    by (simp add: d)
  also have "remove_markers len (t ! p = 10) (drop (Suc p) t) = drop (Suc p) t"
  proof (rule Suc.hyps(1))
    show "n = length t - Suc p" using Suc.hyps(2) by simp
    show "Suc p \<le> length t" using lt by simp
    show "t ! p = 10 \<longrightarrow> line_start t (Suc p)" by (simp add: line_start_def)
  qed
  finally show ?case by (simp add: d[symmetric])
qed

lemma pass_unchanged:
  assumes "\<forall>q < length t. line_start t q \<longrightarrow> len (drop q t) = 0"
  shows "remove_markers len bol t = t"
proof (cases bol)
  case True
  from remove_markers_free[OF assms, of 0 True] True show ?thesis by (simp add: line_start_def)
next
  case False
  from remove_markers_free[OF assms, of 0 False] False show ?thesis by simp
qed

lemma marker_free_len:
  "marker_free t \<Longrightarrow> len \<in> set marker_lens \<Longrightarrow> \<forall>q < length t. line_start t q \<longrightarrow> len (drop q t) = 0"
  by (auto simp: marker_free_def list_all_iff)

lemma marker_free_passes:
  assumes "marker_free t" "set lens \<subseteq> set marker_lens"
  shows "foldl (\<lambda>s len. remove_markers len True s) t lens = t"
  using assms(2)
proof (induction lens)
  case Nil
  then show ?case by simp
next
  case (Cons len lens)
  then have "len \<in> set marker_lens" by simp
  from pass_unchanged[OF marker_free_len[OF assms(1) this]]
  have "remove_markers len True t = t" .
  with Cons show ?case by simp
qed

lemma clean_marker_free: "marker_free t \<Longrightarrow> clean_answer_text t = strip t"
  using marker_free_passes[of t marker_lens] by (simp add: clean_answer_text_scan)

text \<open>The characters inside a token that follow a newline are whitespace or a mark.\<close>

lemma ws_punct_ws_chars:
  assumes d: "drop (ws_len r) r = p # r2" and p: "p \<in> set answer_punct"
      and j: "j < ws_len r + 1 + ws_len r2"
  shows "is_space (r ! j) \<or> r ! j \<in> set answer_punct"
proof -
  let ?n = "ws_len r"
  consider "j < ?n" | "j = ?n" | "?n < j" by linarith
  then show ?thesis
  proof cases
    case 1
    then show ?thesis using ws_len_space by blast
  next
    case 2
    have "r ! ?n = p" using d by (metis nth_via_drop)
    with 2 p show ?thesis by simp
  next
    case 3
    from d have l: "?n < length r" by (cases "?n < length r") simp_all
    have "drop (Suc ?n) r = r2" using d by (metis drop_Suc tl_drop list.sel(3))
    then have "r2 ! (j - Suc ?n) = r ! (Suc ?n + (j - Suc ?n))"
      using l by (metis nth_drop Suc_leI)
    with 3 have "r ! j = r2 ! (j - Suc ?n)" by simp
    moreover from 3 j have "j - Suc ?n < ws_len r2" by linarith
    ultimately show ?thesis using ws_len_space[of "j - Suc ?n" r2] by simp
  qed
qed

lemma punct_marker_len_Cons:
  "punct_marker_len I (c # r)
     = (if c \<in> set I then
          (case drop (ws_len r) r of [] \<Rightarrow> 0
           | p # r2 \<Rightarrow> if p \<in> set answer_punct then 1 + ws_len r + 1 + ws_len r2 else 0)
        else 0)"
  by (simp add: punct_marker_len_def)

lemma punct_token_chars:
  assumes "punct_marker_len I s = k" "0 < q" "q < k"
  shows "is_space (s ! q) \<or> s ! q \<in> set answer_punct"
proof (cases s)
  case Nil
  with assms show ?thesis by (simp add: punct_marker_len_def)
next
  case (Cons c r)
  show ?thesis
  proof (cases "drop (ws_len r) r")
    case Nil
    have "punct_marker_len I s = 0" unfolding Cons punct_marker_len_Cons Nil by simp
    with assms show ?thesis by simp
  next
    case d: (Cons p r2)
    have e: "punct_marker_len I s
        = (if c \<in> set I then if p \<in> set answer_punct then 1 + ws_len r + 1 + ws_len r2 else 0 else 0)"
      unfolding Cons punct_marker_len_Cons d by simp
    from e assms(1,3) have p: "p \<in> set answer_punct" and k: "k = 1 + ws_len r + 1 + ws_len r2"
      by (auto split: if_splits)
    from assms(2,3) k have "q - 1 < ws_len r + 1 + ws_len r2" by linarith
    from ws_punct_ws_chars[OF d p this] have "is_space (r ! (q - 1)) \<or> r ! (q - 1) \<in> set answer_punct" .
    moreover have "s ! q = r ! (q - 1)" using assms(2) Cons by (cases q) simp_all
    ultimately show ?thesis by simp
  qed
qed

lemma bracket_token_chars:
  assumes "bracket_marker_len s = k" "0 < q" "q < k" "s ! (q - 1) = 10"
  shows "is_space (s ! q)"
proof -
  consider (four) "take 4 s = [12304, 31572, 26696, 12305]" "k = 4 + ws_len (drop 4 s)"
    | (three) "take 3 s = [12304, 31572, 12305]" "k = 3 + ws_len (drop 3 s)"
    using assms(1,3) by (auto simp: bracket_marker_len_def split: if_splits)
  then show ?thesis
  proof cases
    case four
    have "length (take 4 s) = length [12304, 31572, 26696, 12305::nat]" by (simp only: four(1))
    then have l: "4 \<le> length s" by simp
    have n: "s ! i = [12304, 31572, 26696, 12305] ! i" if "i < 4" for i
      using that four(1) by (metis nth_take)
    have "4 < q"
    proof (rule ccontr)
      assume "\<not> 4 < q"
      with assms(2) have "q - 1 < 4" by linarith
      then have "q - 1 = 0 \<or> q - 1 = 1 \<or> q - 1 = 2 \<or> q - 1 = 3" by linarith
      with n[of "q - 1"] assms(4) show False by auto
    qed
    then have "s ! q = drop 4 s ! (q - 4)" using l by simp
    moreover have "q - 4 < ws_len (drop 4 s)" using \<open>4 < q\<close> assms(3) four(2) by linarith
    ultimately show ?thesis using ws_len_space[of "q - 4" "drop 4 s"] by simp
  next
    case three
    have "length (take 3 s) = length [12304, 31572, 12305::nat]" by (simp only: three(1))
    then have l: "3 \<le> length s" by simp
    have n: "s ! i = [12304, 31572, 12305] ! i" if "i < 3" for i
      using that three(1) by (metis nth_take)
    have "3 < q"
    proof (rule ccontr)
      assume "\<not> 3 < q"
      with assms(2) have "q - 1 < 3" by linarith
      then have "q - 1 = 0 \<or> q - 1 = 1 \<or> q - 1 = 2" by linarith
      with n[of "q - 1"] assms(4) show False by auto
    qed
    then have "s ! q = drop 3 s ! (q - 3)" using l by simp
    moreover have "q - 3 < ws_len (drop 3 s)" using \<open>3 < q\<close> assms(3) three(2) by linarith
    ultimately show ?thesis using ws_len_space[of "q - 3" "drop 3 s"] by simp
  qed
qed

lemma jie_marker_len_Cons:
  "jie_marker_len (c # x # r)
     = (if c = 35299 \<and> x \<in> set [31572, 26512] then
          (case drop (ws_len r) r of
             [] \<Rightarrow> 2 + ws_len r
           | p # r2 \<Rightarrow> if p \<in> set answer_punct then 2 + ws_len r + 1 + ws_len r2
                        else 2 + ws_len r)
        else 0)"
  "jie_marker_len [c] = 0" "jie_marker_len [] = 0"
  by (simp_all add: jie_marker_len_def)

lemma jie_token_chars:
  assumes "jie_marker_len s = k" "0 < q" "q < k" "s ! (q - 1) = 10"
  shows "is_space (s ! q) \<or> s ! q \<in> set answer_punct"
proof -
  obtain c x r where s: "s = c # x # r"
  proof (cases s)
    case Nil
    with assms(1,3) show ?thesis by (simp add: jie_marker_len_Cons)
  next
    case 1: (Cons c s1)
    show ?thesis
    proof (cases s1)
      case Nil
      with 1 assms(1,3) show ?thesis by (simp add: jie_marker_len_Cons)
    next
      case (Cons x r)
      with 1 that show ?thesis by simp
    qed
  qed
  have c: "c = 35299 \<and> x \<in> set [31572, 26512]"
  proof (rule ccontr)
    assume "\<not> ?thesis"
    then have "jie_marker_len s = 0" unfolding s jie_marker_len_Cons by auto
    with assms(1,3) show False by simp
  qed
  have "q \<noteq> 1" using assms(4) s c by auto
  with assms(2) obtain j where q: "q = Suc (Suc j)" by (cases q; cases "q - 1") auto
  then have sq: "s ! q = r ! j" by (simp add: s)
  show ?thesis
  proof (cases "drop (ws_len r) r")
    case Nil
    have "jie_marker_len s = 2 + ws_len r" unfolding s jie_marker_len_Cons Nil using c by simp
    with q assms(1,3) have "j < ws_len r" by simp
    from ws_len_space[OF this] sq show ?thesis by simp
  next
    case d: (Cons p r2)
    show ?thesis
    proof (cases "p \<in> set answer_punct")
      case True
      have "jie_marker_len s = 2 + ws_len r + 1 + ws_len r2"
        unfolding s jie_marker_len_Cons d using c True by simp
      with q assms(1,3) have "j < ws_len r + 1 + ws_len r2" by simp
      from ws_punct_ws_chars[OF d True this] sq show ?thesis by simp
    next
      case False
      have "jie_marker_len s = 2 + ws_len r"
        unfolding s jie_marker_len_Cons d using c False by simp
      with q assms(1,3) have "j < ws_len r" by simp
      from ws_len_space[OF this] sq show ?thesis by simp
    qed
  qed
qed

lemma marker_lens_cases:
  assumes "len \<in> set marker_lens"
  obtains "len = punct_marker_len [65, 97]" | "len = punct_marker_len [31572]"
    | "len = bracket_marker_len" | "len = jie_marker_len"
  using assms by (auto simp: marker_lens_def)

lemma token_chars:
  assumes "len \<in> set marker_lens" "len s = k" "0 < q" "q < k" "s ! (q - 1) = 10"
  shows "is_space (s ! q) \<or> s ! q \<in> set answer_punct"
  using assms(1)
proof (cases rule: marker_lens_cases)
  case 1
  with assms punct_token_chars[of "[65, 97]" s k q] show ?thesis by simp
next
  case 2
  with assms punct_token_chars[of "[31572]" s k q] show ?thesis by simp
next
  case 3
  with assms bracket_token_chars[of s k q] show ?thesis by simp
next
  case 4
  with assms jie_token_chars[of s k q] show ?thesis by simp
qed

lemma bracket_marker_len_first: "c \<noteq> 12304 \<Longrightarrow> bracket_marker_len (c # r) = 0"
  by (simp add: bracket_marker_len_def take_Cons')

lemma jie_marker_len_first: "c \<noteq> 35299 \<Longrightarrow> jie_marker_len (c # r) = 0"
  by (cases r) (simp_all add: jie_marker_len_Cons)

lemma punct_marker_len_first: "c \<notin> set I \<Longrightarrow> punct_marker_len I (c # r) = 0"
  by (simp add: punct_marker_len_Cons)

lemma no_token_at_mark:
  assumes "len \<in> set marker_lens" "is_space c \<or> c \<in> set answer_punct"
  shows "len (c # r) = 0"
proof -
  from assms(2) have n: "c \<noteq> 65" "c \<noteq> 97" "c \<noteq> 31572" "c \<noteq> 12304" "c \<noteq> 35299"
    by (auto simp: is_space_def answer_punct_def)
  from assms(1) show ?thesis
  proof (cases rule: marker_lens_cases)
    case 1
    with n show ?thesis by (simp add: punct_marker_len_first)
  next
    case 2
    with n show ?thesis by (simp add: punct_marker_len_first)
  next
    case 3
    with n show ?thesis by (simp add: bracket_marker_len_first)
  next
    case 4
    with n show ?thesis by (simp add: jie_marker_len_first)
  qed
qed

lemma other_pass_unchanged:
  assumes mf: "marker_free rest" and li: "len_i \<in> set marker_lens"
      and tok: "len_i (mk @ rest) = length mk"
      and lj: "len_j \<in> set marker_lens" and z: "len_j (mk @ rest) = 0"
  shows "remove_markers len_j bol (mk @ rest) = mk @ rest"
proof (rule pass_unchanged, intro allI impI)
  let ?t = "mk @ rest"
  fix q assume q: "q < length ?t" and ls: "line_start ?t q"
  consider "q = 0" | "0 < q" "q < length mk" | "length mk \<le> q" "0 < q" by linarith
  then show "len_j (drop q ?t) = 0"
  proof cases
    case 1
    with z show ?thesis by simp
  next
    case 2
    with ls have "?t ! (q - 1) = 10" by (simp add: line_start_def)
    from token_chars[OF li tok 2 this]
    have "is_space (?t ! q) \<or> ?t ! q \<in> set answer_punct" .
    from no_token_at_mark[OF lj this, of "drop (Suc q) ?t"] q show ?thesis
      by (simp only: Cons_nth_drop_Suc)
  next
    case 3
    let ?p = "q - length mk"
    have d: "drop q ?t = drop ?p rest" using 3 by simp
    have pl: "?p < length rest" using q 3 by simp
    have "line_start rest ?p"
    proof (cases "?p = 0")
      case True
      then show ?thesis by (simp add: line_start_def)
    next
      case False
      with 3 have "length mk \<le> q - 1" by linarith
      then have "?t ! (q - 1) = rest ! (q - 1 - length mk)" by (simp add: nth_append)
      moreover have "q - 1 - length mk = ?p - 1" by simp
      moreover from ls 3 have "?t ! (q - 1) = 10" by (simp add: line_start_def)
      ultimately show ?thesis by (simp add: line_start_def)
    qed
    with marker_free_len[OF mf lj] pl d show ?thesis by simp
  qed
qed

lemma own_pass:
  assumes mf: "marker_free rest" and li: "len \<in> set marker_lens"
      and tok: "len (mk @ rest) = length mk" and pos: "0 < length mk"
  shows "remove_markers len True (mk @ rest) = rest"
proof -
  have "remove_markers len True (mk @ rest)
      = remove_markers len ((mk @ rest) ! (length mk - 1) = 10) (drop (length mk) (mk @ rest))"
    using tok pos by (subst remove_markers.simps) auto
  also have "\<dots> = remove_markers len ((mk @ rest) ! (length mk - 1) = 10) rest" by simp
  also have "\<dots> = rest" by (rule pass_unchanged[OF marker_free_len[OF mf li]])
  finally show ?thesis .
qed

lemma marker_first_char:
  "0 < punct_marker_len I s \<Longrightarrow> s \<noteq> [] \<and> hd s \<in> set I"
  "0 < bracket_marker_len s \<Longrightarrow> s \<noteq> [] \<and> hd s = 12304"
  "0 < jie_marker_len s \<Longrightarrow> s \<noteq> [] \<and> hd s = 35299"
proof -
  show "s \<noteq> [] \<and> hd s \<in> set I" if g: "0 < punct_marker_len I s"
  proof (cases s)
    case Nil
    with g show ?thesis by (simp add: punct_marker_len_def)
  next
    case (Cons c r)
    have "c \<in> set I"
    proof (rule ccontr)
      assume "c \<notin> set I"
      from punct_marker_len_first[OF this, of r] g Cons show False by simp
    qed
    with Cons show ?thesis by simp
  qed
  show "s \<noteq> [] \<and> hd s = 12304" if g: "0 < bracket_marker_len s"
  proof (cases s)
    case Nil
    with g show ?thesis by (simp add: bracket_marker_len_def)
  next
    case (Cons c r)
    have "c = 12304"
    proof (rule ccontr)
      assume "c \<noteq> 12304"
      from bracket_marker_len_first[OF this, of r] g Cons show False by simp
    qed
    with Cons show ?thesis by simp
  qed
  show "s \<noteq> [] \<and> hd s = 35299" if g: "0 < jie_marker_len s"
  proof (cases s)
    case Nil
    with g show ?thesis by (simp add: jie_marker_len_Cons)
  next
    case (Cons c r)
    have "c = 35299"
    proof (rule ccontr)
      assume "c \<noteq> 35299"
      from jie_marker_len_first[OF this, of r] g Cons show False by simp
    qed
    with Cons show ?thesis by simp
  qed
qed

lemma marker_lens_in:
  "punct_marker_len [65, 97] \<in> set marker_lens" "punct_marker_len [31572] \<in> set marker_lens"
  "bracket_marker_len \<in> set marker_lens" "jie_marker_len \<in> set marker_lens"
  by (simp_all add: marker_lens_def)

lemma clean_leading_marker:
  assumes mf: "marker_free rest" and li: "len \<in> set marker_lens"
      and tok: "len (mk @ rest) = length mk" and pos: "0 < length mk"
  shows "clean_answer_text (mk @ rest) = strip rest"
proof -
  let ?t = "mk @ rest"
  let ?a = "punct_marker_len [65, 97]" and ?d = "punct_marker_len [31572]"
  note free = pass_unchanged[OF marker_free_len[OF mf]]
  note other = other_pass_unchanged[OF mf li tok]
  note own = own_pass[OF mf li tok pos]
  from tok pos have gt: "0 < len ?t" by simp
  have "remove_markers jie_marker_len True (remove_markers bracket_marker_len True
          (remove_markers ?d True (remove_markers ?a True ?t))) = rest"
    using li
  proof (cases rule: marker_lens_cases)
    case 1
    with own free[OF marker_lens_in(2)] free[OF marker_lens_in(3)] free[OF marker_lens_in(4)]
    show ?thesis by simp
  next
    case 2
    with gt marker_first_char(1)[of "[31572]" ?t] have h: "?t \<noteq> []" "hd ?t = 31572" by auto
    then obtain r where t: "?t = 31572 # r" by (cases ?t) auto
    have "?a ?t = 0" by (simp only: t) (simp add: punct_marker_len_first)
    from other[OF marker_lens_in(1) this] 2 own free[OF marker_lens_in(3)] free[OF marker_lens_in(4)]
    show ?thesis by simp
  next
    case 3
    with gt marker_first_char(2)[of ?t] have h: "?t \<noteq> []" "hd ?t = 12304" by auto
    then obtain r where t: "?t = 12304 # r" by (cases ?t) auto
    have "?a ?t = 0" "?d ?t = 0" by (simp_all only: t) (simp_all add: punct_marker_len_first)
    with other[OF marker_lens_in(1)] other[OF marker_lens_in(2)] 3 own free[OF marker_lens_in(4)]
    show ?thesis by simp
  next
    case 4
    with gt marker_first_char(3)[of ?t] have h: "?t \<noteq> []" "hd ?t = 35299" by auto
    then obtain r where t: "?t = 35299 # r" by (cases ?t) auto
    have "?a ?t = 0" "?d ?t = 0" "bracket_marker_len ?t = 0"
      by (simp_all only: t) (simp_all add: punct_marker_len_first bracket_marker_len_first)
    with other[OF marker_lens_in(1)] other[OF marker_lens_in(2)] other[OF marker_lens_in(3)] 4 own
    show ?thesis by simp
  qed
  then show ?thesis by (simp add: clean_answer_text_scan marker_lens_def)
qed

text \<open>
  Claim C7, amended. \<open>_clean_answer_text\<close> makes four passes over the answer, one for each
  pattern of \<open>answer_start_patterns\<close> in their order, and each pass removes every marker
  token of its kind that stands at the start of a line, not only a leading one (the patterns
  are compiled with \<open>re.MULTILINE\<close>); then the text is stripped. Nothing else changes. So
  an answer in which no line starts with a marker token is only stripped, and when the text
  is a marker token \<open>mk\<close> (all that the pattern matches at the front) followed by such an
  answer, the result is the stripped answer.
\<close>

theorem clean_answer_text_markers:
  "clean_answer_text t = strip (foldl (\<lambda>s len. remove_markers len True s) t marker_lens)
   \<and> (marker_free t \<longrightarrow> clean_answer_text t = strip t)
   \<and> (marker_free t \<and> len \<in> set marker_lens \<and> 0 < length mk \<and> len (mk @ t) = length mk
        \<longrightarrow> clean_answer_text (mk @ t) = strip t)"
  using clean_answer_text_scan[of t] clean_marker_free[of t] clean_leading_marker[of t len mk]
  by blast

lemmas marker_eval = marker_free_def marker_lens_def line_start_def punct_marker_len_def
  bracket_marker_len_def jie_marker_len_def ws_len_def is_space_def answer_punct_def upt_rec

lemma apple_free: "marker_free (u ''apple'')"
  by (simp add: u_def marker_eval)

lemma later_marker_scan:
  "foldl (\<lambda>s len. remove_markers len True s) later_marker marker_lens = u ''foo'' @ [10] @ u ''bar''"
  by (simp add: later_marker_def u_def marker_eval remove_markers.simps)

text \<open>
  The answers \<open>apple\<close> and \<open>A: apple\<close>, and the answer \<open>foo\<close>, newline, \<open>A: bar\<close>
  with a marker on its second line.
\<close>

theorem clean_answer_text_markers_witness:
  "marker_free (u ''apple'')
   \<and> punct_marker_len [65, 97] \<in> set marker_lens
   \<and> punct_marker_len [65, 97] (u ''A: '' @ u ''apple'') = length (u ''A: '')
   \<and> clean_answer_text (u ''apple'') = u ''apple''
   \<and> clean_answer_text (u ''A: apple'') = u ''apple''
   \<and> clean_answer_text later_marker = u ''foo'' @ [10] @ u ''bar''"
proof -
  have l: "punct_marker_len [65, 97] (u ''A: '' @ u ''apple'') = length (u ''A: '')"
    by (simp add: u_def marker_eval)
  have s: "strip (u ''apple'') = u ''apple''" "u ''A: '' @ u ''apple'' = u ''A: apple''"
    "strip (u ''foo'' @ 10 # u ''bar'') = u ''foo'' @ 10 # u ''bar''"
    by (simp_all add: u_def strip_def lstrip_def rstrip_def is_space_def)
  note T = clean_answer_text_markers[of "u ''apple''" "punct_marker_len [65, 97]" "u ''A: ''"]
  from T apple_free have 1: "clean_answer_text (u ''apple'') = strip (u ''apple'')" by blast
  have pos: "0 < length (u ''A: '')" by (simp add: u_def)
  from T apple_free marker_lens_in(1) pos l
  have 2: "clean_answer_text (u ''A: '' @ u ''apple'') = strip (u ''apple'')" by blast
  from clean_answer_text_markers[of later_marker]
  have 3: "clean_answer_text later_marker
      = strip (foldl (\<lambda>s len. remove_markers len True s) later_marker marker_lens)" by blast
  from 1 2 3 l apple_free show ?thesis
    by (simp add: s later_marker_scan marker_lens_in(1))
qed

section \<open>The parser on concrete texts\<close>

lemmas rx_eval = finditer_def match_at_def rep_counts_def Let_def
  ws_star_def dot_plus_def dot_plus_lazy_def opt_def one_of_def lit_def dot_def is_space_def
  ascii_db_def rx_str_def any_char_def upt_rec slice_def group_str_def strip_def lstrip_def rstrip_def
  rx_sub_def rx_split_def

lemmas qp_eval = question_positions_def question_patterns_def num_punct_def qmarks_def
  heuristic_keywords_def mk_position_def py_int_def step_marker_pattern_def step_class_def

lemma two_questions_eq:
  "two_questions = [49, 46, 32, 97, 63, 10, 10, 98, 10, 10, 50, 46, 32, 99, 63, 10, 10, 100]"
  by (simp add: two_questions_def u_def)

lemma two_questions_normalize: "parser_normalize_text two_questions = two_questions"
  by (simp add: parser_normalize_text_def two_questions_eq rx_eval)

lemma two_questions_positions:
  "question_positions ascii_db two_questions =
     Inr [\<lparr> q_start = 0, q_end = 5, q_num = Some 1, q_question = [49, 46, 32, 97, 63],
            q_question_text = [97] \<rparr>,
          \<lparr> q_start = 10, q_end = 15, q_num = Some 2, q_question = [50, 46, 32, 99, 63],
            q_question_text = [99] \<rparr>]"
  by (simp add: qp_eval two_questions_eq rx_eval)

lemma clean_single: "clean_answer_text [98] = [98]" "clean_answer_text [100] = [100]"
  by (simp_all add: clean_answer_text_def answer_start_patterns_def answer_punct_def rx_eval)

lemma two_questions_parse:
  "parse ascii_db two_questions None None =
     Inr [\<lparr> qa_question = [49, 46, 32, 97, 63], qa_answer = [98], qa_question_num = Some 1,
            qa_source_file = None, qa_page_num = None, start_pos = 0, end_pos = 10 \<rparr>,
          \<lparr> qa_question = [50, 46, 32, 99, 63], qa_answer = [100], qa_question_num = Some 2,
            qa_source_file = None, qa_page_num = None, start_pos = 10, end_pos = 18 \<rparr>]"
  by (simp add: parse_def two_questions_normalize parse_by_question_markers_def two_questions_positions)
     (simp add: two_questions_eq rx_eval clean_single)

lemma plain_text_eq:
  "plain_text = [112, 108, 97, 105, 110, 32, 116, 101, 120, 116, 10, 10, 109, 111, 114, 101]"
  by (simp add: plain_text_def u_def)

lemma plain_text_normalize: "parser_normalize_text plain_text = plain_text"
  by (simp add: parser_normalize_text_def plain_text_eq rx_eval)

lemma plain_text_positions: "question_positions ascii_db plain_text = Inr []"
  by (simp add: qp_eval plain_text_eq rx_eval)

lemma plain_text_blocks: "finditer (code_block_pattern ascii_db) plain_text = []"
  by (simp add: code_block_pattern_def plain_text_eq rx_eval)

lemma plain_text_paragraphs:
  "rx_split paragraph_sep plain_text
     = [[112, 108, 97, 105, 110, 32, 116, 101, 120, 116], [109, 111, 114, 101]]"
  by (simp add: paragraph_sep_def plain_text_eq rx_eval)

lemma plain_text_not_question:
  "\<not> is_question ascii_db (strip [112, 108, 97, 105, 110, 32, 116, 101, 120, 116])"
  "\<not> is_question ascii_db (strip [109, 111, 114, 101])"
  by (simp_all add: is_question_def qp_eval rx_eval)

lemma later_marker_eq: "later_marker = [102, 111, 111, 10, 65, 58, 32, 98, 97, 114]"
  by (simp add: later_marker_def u_def)

lemma later_marker_clean: "clean_answer_text later_marker = [102, 111, 111, 10, 98, 97, 114]"
  by (simp add: clean_answer_text_def answer_start_patterns_def answer_punct_def later_marker_eq rx_eval)

lemma later_marker_strip: "strip later_marker = later_marker"
  by (simp add: later_marker_eq rx_eval)

lemma later_marker_doc_eq:
  "later_marker_doc = [49, 46, 32, 81, 63, 10, 102, 111, 111, 10, 65, 58, 32, 98, 97, 114]"
  by (simp add: later_marker_doc_def u_def)

lemma later_marker_doc_normalize: "parser_normalize_text later_marker_doc = later_marker_doc"
  by (simp add: parser_normalize_text_def later_marker_doc_eq rx_eval)

lemma later_marker_doc_positions:
  "question_positions ascii_db later_marker_doc =
     Inr [\<lparr> q_start = 0, q_end = 5, q_num = Some 1, q_question = [49, 46, 32, 81, 63],
            q_question_text = [81] \<rparr>]"
  by (simp add: qp_eval later_marker_doc_eq rx_eval)

lemma later_marker_doc_parse:
  "parse ascii_db later_marker_doc None None =
     Inr [\<lparr> qa_question = [49, 46, 32, 81, 63], qa_answer = [102, 111, 111, 10, 98, 97, 114],
            qa_question_num = Some 1, qa_source_file = None, qa_page_num = None,
            start_pos = 0, end_pos = 16 \<rparr>]"
  by (simp add: parse_def later_marker_doc_normalize parse_by_question_markers_def
        later_marker_doc_positions)
     (simp add: later_marker_doc_eq rx_eval later_marker_clean[unfolded later_marker_eq])

text \<open>
  Claim C3. For every input text, the list of pairs that \<open>parse\<close> returns is sorted by
  \<open>start_pos\<close>; every pair has \<open>start_pos \<le> end_pos\<close>; and each pair ends no later than
  the next one starts: \<open>pair[i].end_pos \<le> pair[i+1].start_pos\<close>.
\<close>

theorem parse_sorted_nonoverlapping:
  assumes "parse U text sf pn = Inr qs"
  shows "sorted (map start_pos qs)
       \<and> (\<forall>q \<in> set qs. start_pos q \<le> end_pos q)
       \<and> (\<forall>i. Suc i < length qs \<longrightarrow> end_pos (qs ! i) \<le> start_pos (qs ! Suc i))"
proof -
  from parse_chain[OF assms] have c: "pairs_from 0 qs" .
  from pairs_from_sorted[OF c] pairs_from_each[OF c] pairs_from_adjacent[OF c]
  show ?thesis by blast
qed

text \<open>
  The text \<open>1. a?\<close>, blank line, \<open>b\<close>, blank line, \<open>2. c?\<close>, blank line, \<open>d\<close>: two pairs,
  at 0 to 10 and at 10 to 18.
\<close>

theorem parse_sorted_nonoverlapping_witness:
  "parse ascii_db two_questions None None
     = Inr [\<lparr> qa_question = u ''1. a?'', qa_answer = u ''b'', qa_question_num = Some 1,
              qa_source_file = None, qa_page_num = None, start_pos = 0, end_pos = 10 \<rparr>,
            \<lparr> qa_question = u ''2. c?'', qa_answer = u ''d'', qa_question_num = Some 2,
              qa_source_file = None, qa_page_num = None, start_pos = 10, end_pos = 18 \<rparr>]
   \<and> sorted (map start_pos (projr (parse ascii_db two_questions None None)))
   \<and> start_pos (projr (parse ascii_db two_questions None None) ! 0)
        \<le> end_pos (projr (parse ascii_db two_questions None None) ! 0)
   \<and> end_pos (projr (parse ascii_db two_questions None None) ! 0)
        \<le> start_pos (projr (parse ascii_db two_questions None None) ! 1)"
proof -
  have p: "parse ascii_db two_questions None None
     = Inr [\<lparr> qa_question = u ''1. a?'', qa_answer = u ''b'', qa_question_num = Some 1,
              qa_source_file = None, qa_page_num = None, start_pos = 0, end_pos = 10 \<rparr>,
            \<lparr> qa_question = u ''2. c?'', qa_answer = u ''d'', qa_question_num = Some 2,
              qa_source_file = None, qa_page_num = None, start_pos = 10, end_pos = 18 \<rparr>]"
    by (simp add: two_questions_parse u_def)
  from parse_sorted_nonoverlapping[OF p] p show ?thesis by simp
qed

text \<open>The structureless text \<open>plain text\<close>, blank line, \<open>more\<close>.\<close>

lemma plain_text_parse: "parse ascii_db plain_text None None = Inr []"
proof (rule parse_no_structure)
  show "question_positions ascii_db (parser_normalize_text plain_text) = Inr []"
    by (simp add: plain_text_normalize plain_text_positions)
  show "finditer (code_block_pattern ascii_db) (parser_normalize_text plain_text) = []"
    by (simp add: plain_text_normalize plain_text_blocks)
  show "\<forall>para \<in> set (rx_split paragraph_sep (parser_normalize_text plain_text)).
          strip para \<noteq> [] \<longrightarrow> \<not> is_question ascii_db (strip para)"
    using plain_text_not_question by (simp add: plain_text_normalize plain_text_paragraphs)
qed

text \<open>A marker on a later line of an answer, and a marker at its front.\<close>

theorem clean_answer_text_later_marker_counterexample:
  "strip later_marker = later_marker
   \<and> clean_answer_text later_marker = u ''foo'' @ [10] @ u ''bar''
   \<and> clean_answer_text later_marker \<noteq> later_marker
   \<and> parse ascii_db later_marker_doc None None
       = Inr [\<lparr> qa_question = u ''1. Q?'', qa_answer = u ''foo'' @ [10] @ u ''bar'',
                qa_question_num = Some 1, qa_source_file = None, qa_page_num = None,
                start_pos = 0, end_pos = 16 \<rparr>]"
  by (simp add: later_marker_strip later_marker_clean later_marker_doc_parse)
     (simp add: later_marker_eq u_def)

section \<open>Properties of the chunker\<close>

lemma rstrip_append_spaces: "list_all is_space w \<Longrightarrow> rstrip (s @ w) = rstrip s"
proof -
  assume "list_all is_space w"
  then have "dropWhile is_space (rev w @ rev s) = dropWhile is_space (rev s)"
    by (intro dropWhile_append2) (simp add: list_all_iff)
  then show ?thesis by (simp add: rstrip_def)
qed

lemma strip_append_spaces:
  assumes "list_all is_space w"
  shows "strip (s @ w) = strip s"
proof (cases "list_all is_space s")
  case True
  with assms have "lstrip (s @ w) = []" "lstrip s = []"
    by (simp_all add: lstrip_def dropWhile_eq_Nil_conv list_all_iff)
  then show ?thesis by (simp only: strip_def)
next
  case False
  then obtain x where "x \<in> set s" "\<not> is_space x" by (auto simp: list_all_iff)
  then have "lstrip (s @ w) = lstrip s @ w"
    unfolding lstrip_def by (rule dropWhile_append1)
  then show ?thesis using assms by (simp add: strip_def rstrip_append_spaces)
qed

lemma strip_append_newlines: "strip (s @ [10, 10]) = strip s"
  by (rule strip_append_spaces) (simp add: is_space_def)

lemma foldr_max_ge: "x \<in> set xs \<Longrightarrow> x \<le> foldr max xs (0::nat)"
  by (induction xs) auto

lemma longest_paragraph_ge:
  "para \<in> set (rx_split paragraph_sep t) \<Longrightarrow> length (strip para) \<le> longest_paragraph t"
  unfolding longest_paragraph_def by (rule foldr_max_ge) auto

subsection \<open>The overlap text\<close>

lemma overlap_loop_bound:
  "int (length overlap) \<le> ov + 1 \<Longrightarrow> int (length (overlap_loop ov sents overlap)) \<le> ov + 1"
  by (induction sents arbitrary: overlap) auto

lemma py_slice_from_suffix:
  "1 \<le> ov \<Longrightarrow> int (length (py_slice_from t (- ov))) \<le> ov"
  by (auto simp: py_slice_from_def clamp_def)

lemma get_overlap_text_bound:
  assumes "1 \<le> overlap_size cfg"
  shows "int (length (get_overlap_text cfg parts)) \<le> overlap_size cfg + 1"
proof -
  have "int (length (strip (overlap_loop (overlap_size cfg) sents []))) \<le> overlap_size cfg + 1" for sents
  proof -
    have "int (length (overlap_loop (overlap_size cfg) sents [])) \<le> overlap_size cfg + 1"
      by (rule overlap_loop_bound) (use assms in simp)
    with length_strip_le[of "overlap_loop (overlap_size cfg) sents []"] show ?thesis by linarith
  qed
  note a = this
  show ?thesis
  proof (cases "parts = []")
    case True
    with assms show ?thesis by (simp add: get_overlap_text_def)
  next
    case ne: False
    show ?thesis
    proof (cases "int (length (last parts)) \<le> overlap_size cfg")
      case True
      with ne show ?thesis by (simp add: get_overlap_text_def Let_def)
    next
      case False
      show ?thesis
      proof (cases "strip (overlap_loop (overlap_size cfg)
                      (rev (rx_split (one_of sentence_end) (last parts))) []) = []")
        case True
        with ne False py_slice_from_suffix[OF assms, of "last parts"] show ?thesis
          by (simp add: get_overlap_text_def Let_def)
      next
        case s: False
        with ne False a[of "rev (rx_split (one_of sentence_end) (last parts))"] show ?thesis
          by (simp add: get_overlap_text_def Let_def)
      qed
    qed
  qed
qed

subsection \<open>Splitting a long pair\<close>

lemma split_step_skip: "strip para0 = [] \<Longrightarrow> split_step cfg qa sf st para0 = st"
  by (simp add: split_step_def)

lemma split_step_emit:
  assumes "strip para0 \<noteq> []"
      "int (length (ss_content st @ strip para0)) > max_chunk_size cfg" "ss_parts st \<noteq> []"
  shows "ss_chunks (split_step cfg qa sf st para0)
           = ss_chunks st @ [split_chunk qa sf st
                [(u ''is_split'', PyBool True), (u ''part'', PyInt (int (length (ss_chunks st)) + 1))]]"
    "ss_content (split_step cfg qa sf st para0)
           = qa_question qa @ continuation @ get_overlap_text cfg (ss_parts st) @ strip para0 @ [10, 10]"
    "ss_parts (split_step cfg qa sf st para0) = [strip para0]"
  using assms by (simp_all add: split_step_def Let_def)

lemma split_step_add:
  assumes "strip para0 \<noteq> []"
      "\<not> (int (length (ss_content st @ strip para0)) > max_chunk_size cfg \<and> ss_parts st \<noteq> [])"
  shows "ss_chunks (split_step cfg qa sf st para0) = ss_chunks st"
    "ss_content (split_step cfg qa sf st para0) = ss_content st @ strip para0 @ [10, 10]"
    "ss_parts (split_step cfg qa sf st para0) = ss_parts st @ [strip para0]"
  using assms by (auto simp: split_step_def Let_def)

lemma length_strip_newlines: "length (strip (s @ [10, 10])) \<le> length s"
  using strip_append_newlines[of s] length_strip_le[of s] by simp

lemma split_step_inv:
  assumes inv: "split_inv B qa st"
      and ov: "1 \<le> overlap_size cfg"
      and M: "max_chunk_size cfg \<le> B"
      and B: "int (length (qa_question qa)) + 8 + overlap_size cfg + int (length (strip para0)) \<le> B"
  shows "split_inv B qa (split_step cfg qa sf st para0)"
proof (cases "strip para0 = []")
  case True
  with inv show ?thesis by (simp only: split_step_skip)
next
  case ne: False
  let ?para = "strip para0"
  from inv have ch: "\<forall>c \<in> set (ss_chunks st). int (length (content c)) \<le> B"
    by (simp add: split_inv_def)
  show ?thesis
  proof (cases "int (length (ss_content st @ ?para)) > max_chunk_size cfg \<and> ss_parts st \<noteq> []")
    case True
    then have t: "int (length (ss_content st @ ?para)) > max_chunk_size cfg" "ss_parts st \<noteq> []"
      by simp_all
    from inv t(2) have "int (length (strip (ss_content st))) \<le> B" by (simp add: split_inv_def)
    then have 1: "int (length (content (split_chunk qa sf st md))) \<le> B" for md
      by (simp add: split_chunk_def)
    let ?c = "qa_question qa @ continuation @ get_overlap_text cfg (ss_parts st) @ ?para"
    have "length (strip (?c @ [10, 10])) \<le> length ?c" by (rule length_strip_newlines)
    moreover have "int (length ?c) \<le> int (length (qa_question qa)) + 7 + (overlap_size cfg + 1) + int (length ?para)"
      using get_overlap_text_bound[OF ov, of "ss_parts st"] by (simp add: continuation_def)
    ultimately have 2: "int (length (strip (?c @ [10, 10]))) \<le> B" using B by linarith
    show ?thesis
      unfolding split_inv_def split_step_emit[OF ne t]
      using ch 1 2 by simp
  next
    case False
    have 3: "int (length (strip (ss_content st @ ?para @ [10, 10]))) \<le> B"
    proof (cases "ss_parts st = []")
      case True
      with inv have c: "ss_content st = qa_question qa @ [10, 10]" by (simp add: split_inv_def)
      have "length (strip ((ss_content st @ ?para) @ [10, 10])) \<le> length (ss_content st @ ?para)"
        by (rule length_strip_newlines)
      moreover have "int (length (ss_content st @ ?para)) = int (length (qa_question qa)) + 2 + int (length ?para)"
        by (simp add: c)
      ultimately show ?thesis using B ov by simp
    next
      case p: False
      with False have le: "int (length (ss_content st @ ?para)) \<le> max_chunk_size cfg" by simp
      have "length (strip ((ss_content st @ ?para) @ [10, 10])) \<le> length (ss_content st @ ?para)"
        by (rule length_strip_newlines)
      with le M show ?thesis by simp
    qed
    show ?thesis
      unfolding split_inv_def split_step_add[OF ne False]
      using ch 3 by simp
  qed
qed

lemma split_loop_inv:
  assumes "split_inv B qa st" "1 \<le> overlap_size cfg" "max_chunk_size cfg \<le> B"
      and "\<forall>para \<in> set paras.
             int (length (qa_question qa)) + 8 + overlap_size cfg + int (length (strip para)) \<le> B"
  shows "split_inv B qa (foldl (split_step cfg qa sf) st paras)"
  using assms
proof (induction paras arbitrary: st)
  case Nil
  then show ?case by simp
next
  case (Cons para paras)
  from Cons.prems have "split_inv B qa (split_step cfg qa sf st para)"
    by (intro split_step_inv) auto
  from Cons.IH[OF this] Cons.prems show ?case by simp
qed

lemma split_long_qa_bound:
  assumes ov: "1 \<le> overlap_size cfg"
      and c: "c \<in> set (fst (split_long_qa cfg qa sf counter))"
  shows "int (length (content c))
           \<le> max (max_chunk_size cfg)
                 (int (length (qa_question qa)) + 8 + overlap_size cfg
                    + int (longest_paragraph (qa_answer qa)))"
    (is "_ \<le> ?B")
proof -
  let ?init = "\<lparr> ss_chunks = [], ss_content = qa_question qa @ [10, 10], ss_parts = [],
                 ss_counter = counter \<rparr>"
  let ?st = "foldl (split_step cfg qa sf) ?init (rx_split paragraph_sep (qa_answer qa))"
  have 0: "split_inv ?B qa ?init" by (simp add: split_inv_def)
  have "split_inv ?B qa ?st"
  proof (rule split_loop_inv[OF 0 ov])
    show "max_chunk_size cfg \<le> ?B" by simp
    show "\<forall>para \<in> set (rx_split paragraph_sep (qa_answer qa)).
            int (length (qa_question qa)) + 8 + overlap_size cfg + int (length (strip para)) \<le> ?B"
    proof
      fix para assume "para \<in> set (rx_split paragraph_sep (qa_answer qa))"
      from longest_paragraph_ge[OF this]
      show "int (length (qa_question qa)) + 8 + overlap_size cfg + int (length (strip para)) \<le> ?B"
        by linarith
    qed
  qed
  then have i: "\<forall>c \<in> set (ss_chunks ?st). int (length (content c)) \<le> ?B"
    and j: "ss_parts ?st \<noteq> [] \<Longrightarrow> int (length (strip (ss_content ?st))) \<le> ?B"
    by (simp_all add: split_inv_def)
  show ?thesis
  proof (cases "ss_parts ?st = []")
    case True
    with c i show ?thesis by (simp add: split_long_qa_def Let_def)
  next
    case False
    with c have "c \<in> set (ss_chunks ?st) \<or> content c = strip (ss_content ?st)"
      by (auto simp: split_long_qa_def Let_def split_chunk_def)
    with i j[OF False] show ?thesis by auto
  qed
qed

lemma chunk_qa_step_bound:
  assumes "1 \<le> overlap_size cfg" "\<forall>c \<in> set (fst acc). int (length (content c)) \<le> max (max_chunk_size cfg) (int Q + 8 + overlap_size cfg + int P)"
     and "length (qa_question qa) \<le> Q" "longest_paragraph (qa_answer qa) \<le> P"
  shows "\<forall>c \<in> set (fst (chunk_qa_step cfg sf acc qa)).
           int (length (content c)) \<le> max (max_chunk_size cfg) (int Q + 8 + overlap_size cfg + int P)"
proof (cases "int (qa_char_count qa) > max_chunk_size cfg")
  case True
  have "int (length (content c)) \<le> max (max_chunk_size cfg) (int Q + 8 + overlap_size cfg + int P)"
    if "c \<in> set (fst (split_long_qa cfg qa sf (snd acc)))" for c
    using split_long_qa_bound[OF assms(1) that] assms(3,4) by linarith
  with True assms(2) show ?thesis by (auto simp: chunk_qa_step_def)
next
  case False
  then show ?thesis using assms(2)
    by (auto simp: chunk_qa_step_def qa_chunk_def qa_char_count_def)
qed

lemma chunk_qa_loop_bound:
  assumes "1 \<le> overlap_size cfg"
     and "\<forall>c \<in> set (fst acc). int (length (content c)) \<le> max (max_chunk_size cfg) (int Q + 8 + overlap_size cfg + int P)"
     and "\<forall>qa \<in> set qas. length (qa_question qa) \<le> Q \<and> longest_paragraph (qa_answer qa) \<le> P"
  shows "\<forall>c \<in> set (fst (foldl (chunk_qa_step cfg sf) acc qas)).
           int (length (content c)) \<le> max (max_chunk_size cfg) (int Q + 8 + overlap_size cfg + int P)"
  using assms(2,3)
proof (induction qas arbitrary: acc)
  case Nil
  then show ?case by simp
next
  case (Cons qa qas)
  have "\<forall>c \<in> set (fst (chunk_qa_step cfg sf acc qa)).
           int (length (content c)) \<le> max (max_chunk_size cfg) (int Q + 8 + overlap_size cfg + int P)"
    using Cons.prems by (intro chunk_qa_step_bound[OF assms(1)]) auto
  from Cons.IH[OF this] Cons.prems(2) show ?case by simp
qed

lemma chunk_qa_pairs_bound:
  assumes "1 \<le> overlap_size cfg"
     and "\<forall>qa \<in> set qas. length (qa_question qa) \<le> Q \<and> longest_paragraph (qa_answer qa) \<le> P"
     and "c \<in> set (fst (chunk_qa_pairs cfg qas sf counter))"
  shows "int (length (content c)) \<le> max (max_chunk_size cfg) (int Q + 8 + overlap_size cfg + int P)"
  using chunk_qa_loop_bound[OF assms(1) _ assms(2), of "([], counter)" sf] assms(3)
  by (simp add: chunk_qa_pairs_def)

subsection \<open>Forced splitting\<close>

lemma clamp_diff: "a \<le> b \<Longrightarrow> int (clamp n b - clamp n a) \<le> b - a"
  by (auto simp: clamp_def)

lemma py_slice_length: "a \<le> b \<Longrightarrow> int (length (py_slice t a b)) \<le> b - a"
proof -
  assume "a \<le> b"
  have "length (py_slice t a b) \<le> clamp (length t) b - clamp (length t) a"
    by (simp add: py_slice_def)
  with clamp_diff[OF \<open>a \<le> b\<close>, of "length t"] show ?thesis by linarith
qed

lemma set_range_down: "set (range_down a b) = {b + 1..a}"
  by (simp add: range_down_def)

lemma find_break_Some: "find_break t is = Inr (Some i) \<Longrightarrow> i \<in> set is"
  by (induction "is") (auto split: sum.splits if_splits)

lemma find_break_total:
  "\<forall>i \<in> set is. 0 \<le> i \<and> i < int (length t) \<Longrightarrow> \<exists>b. find_break t is = Inr b"
  by (induction "is") (auto simp: py_index_def split: sum.splits)

lemma piece_end_bounds:
  assumes "0 \<le> max_chunk_size cfg"
      and "b = None \<or> (\<exists>i. b = Some i \<and> i \<in> set (range_down (start + max_chunk_size cfg)
                 (max (start + max_chunk_size cfg div 2) start)))"
  shows "start \<le> piece_end cfg start b \<and> piece_end cfg start b \<le> start + max_chunk_size cfg + 1"
  using assms by (auto simp: piece_end_def set_range_down)

lemma force_split_loop_bound:
  assumes "0 \<le> max_chunk_size cfg"
      and "force_split_loop fuel cfg text sf pn start acc = Some (Inr r)"
      and "\<forall>c \<in> set (fst acc). int (length (content c)) \<le> B"
      and "max_chunk_size cfg + 1 \<le> B"
  shows "\<forall>c \<in> set (fst r). int (length (content c)) \<le> B"
  using assms(2,3)
proof (induction fuel arbitrary: start acc)
  case 0
  then show ?case by simp
next
  case (Suc fuel)
  show ?case
  proof (cases "start < int (length text)")
    case False
    with Suc.prems show ?thesis by simp
  next
    case True
    let ?end0 = "start + max_chunk_size cfg"
    let ?fb = "if ?end0 < int (length text)
               then find_break text (range_down ?end0 (max (start + max_chunk_size cfg div 2) start))
               else Inr None"
    from Suc.prems(1) True obtain b where b: "?fb = Inr b"
      by (cases ?fb) (simp_all add: Let_def)
    have "b = None \<or> (\<exists>i. b = Some i \<and> i \<in> set (range_down ?end0 (max (start + max_chunk_size cfg div 2) start)))"
      using b find_break_Some[of "text"] by (cases b) (auto split: if_splits)
    from piece_end_bounds[OF assms(1) this]
    have pe: "start \<le> piece_end cfg start b" "piece_end cfg start b \<le> start + max_chunk_size cfg + 1"
      by simp_all
    let ?e = "piece_end cfg start b"
    let ?chunk = "text_chunk (u ''text'') (strip (py_slice text start ?e)) sf pn
                    [(u ''force_split'', PyBool True)] (snd acc)"
    let ?acc = "(fst acc @ [?chunk], snd (generate_chunk_id (u ''text'') (snd acc)))"
    have step: "force_split_loop (Suc fuel) cfg text sf pn start acc
          = force_split_loop fuel cfg text sf pn
              (if ?e < int (length text) then ?e - overlap_size cfg else ?e) ?acc"
      using True b by (simp add: Let_def piece_end_def)
    have "int (length (strip (py_slice text start ?e))) \<le> int (length (py_slice text start ?e))"
      using length_strip_le by simp
    also have "\<dots> \<le> ?e - start" by (rule py_slice_length[OF pe(1)])
    finally have "int (length (content ?chunk)) \<le> B" using pe(2) assms(4)
      by (simp add: text_chunk_def)
    with Suc.prems(2) have "\<forall>c \<in> set (fst ?acc). int (length (content c)) \<le> B" by simp
    from Suc.IH[OF _ this] Suc.prems(1) step show ?thesis by simp
  qed
qed

lemma force_split_bound:
  assumes "0 \<le> max_chunk_size cfg"
      and "force_split fuel cfg text sf pn counter = Some (Inr r)"
  shows "\<forall>c \<in> set (fst r). int (length (content c)) \<le> max_chunk_size cfg + 1"
  using force_split_loop_bound[OF assms(1) assms(2)[unfolded force_split_def]] by simp

subsection \<open>Plain text\<close>

lemma overlap_tail_bound:
  assumes "1 \<le> ov"
  shows "int (length (if int (length cur) > ov then py_slice_from cur (- ov) else [])) \<le> ov"
  using py_slice_from_suffix[OF assms, of cur] assms by simp

subsection \<open>Markdown\<close>

lemma content_tag_title [simp]: "content (tag_title title sub) = content sub"
  by (cases title) (simp_all add: tag_title_def)

lemma md_loop_bound:
  assumes "0 \<le> max_chunk_size cfg"
      and "md_loop fuel cfg sf pn sections acc = Some (Inr r)"
      and "\<forall>c \<in> set (fst acc). int (length (content c)) \<le> max_chunk_size cfg + 1"
  shows "\<forall>c \<in> set (fst r). int (length (content c)) \<le> max_chunk_size cfg + 1"
  using assms(2,3)
proof (induction sections arbitrary: acc)
  case Nil
  then show ?case by simp
next
  case (Cons s sections)
  obtain title body where s: "s = (title, body)" by (cases s)
  let ?t = "case title of Some t \<Rightarrow> strip (t @ [10, 10] @ body) | None \<Rightarrow> strip body"
  show ?case
  proof (cases "?t = []")
    case True
    with Cons.prems(1) s have "md_loop fuel cfg sf pn sections acc = Some (Inr r)" by simp
    from Cons.IH[OF this Cons.prems(2)] show ?thesis .
  next
    case ne: False
    show ?thesis
    proof (cases "int (length ?t) > max_chunk_size cfg")
      case True
      with ne s Cons.prems(1) obtain subs counter where
        f: "force_split fuel cfg ?t sf pn (snd acc) = Some (Inr (subs, counter))"
        and l: "md_loop fuel cfg sf pn sections (fst acc @ map (tag_title title) subs, counter) = Some (Inr r)"
        by (auto simp: Let_def split: option.splits sum.splits)
      from force_split_bound[OF assms(1) f]
      have "\<forall>c \<in> set subs. int (length (content c)) \<le> max_chunk_size cfg + 1" by simp
      with Cons.prems(2)
      have "\<forall>c \<in> set (fst (fst acc @ map (tag_title title) subs, counter)).
              int (length (content c)) \<le> max_chunk_size cfg + 1" by auto
      from Cons.IH[OF l this] show ?thesis .
    next
      case False
      let ?acc = "(fst acc @ [text_chunk (u ''md'') ?t sf pn
                        (case title of Some t \<Rightarrow> [(u ''md_title'', PyStr t)] | None \<Rightarrow> []) (snd acc)],
                   snd (generate_chunk_id (u ''md'') (snd acc)))"
      from False ne s Cons.prems(1) have l: "md_loop fuel cfg sf pn sections ?acc = Some (Inr r)"
        by (simp add: Let_def)
      from False Cons.prems(2)
      have "\<forall>c \<in> set (fst ?acc). int (length (content c)) \<le> max_chunk_size cfg + 1"
        by (simp add: text_chunk_def)
      from Cons.IH[OF l this] show ?thesis .
    qed
  qed
qed

subsection \<open>Termination of the forced split\<close>

lemma force_split_loop_returns:
  assumes "1 \<le> overlap_size cfg" "2 * overlap_size cfg \<le> max_chunk_size cfg"
      and "0 \<le> start" "nat (int (length text) - start) < fuel"
  shows "\<exists>r. force_split_loop fuel cfg text sf pn start acc = Some (Inr r)"
  using assms(3,4)
proof (induction fuel arbitrary: start acc)
  case 0
  then show ?case by simp
next
  case (Suc fuel)
  show ?case
  proof (cases "start < int (length text)")
    case False
    then show ?thesis by simp
  next
    case True
    let ?M = "max_chunk_size cfg"
    let ?end0 = "start + ?M"
    let ?rng = "range_down ?end0 (max (start + ?M div 2) start)"
    let ?fb = "if ?end0 < int (length text) then find_break text ?rng else Inr None"
    have "\<exists>b. ?fb = Inr b"
    proof (cases "?end0 < int (length text)")
      case True
      then have "\<forall>i \<in> set ?rng. 0 \<le> i \<and> i < int (length text)"
        using Suc.prems(1) by (auto simp: set_range_down)
      from find_break_total[OF this] True show ?thesis by simp
    next
      case False
      then show ?thesis by simp
    qed
    then obtain b where b: "?fb = Inr b" by blast
    have bm: "b = None \<or> (\<exists>i. b = Some i \<and> i \<in> set ?rng)"
      using b find_break_Some[of "text"] by (cases b) (auto split: if_splits)
    let ?e = "piece_end cfg start b"
    have lo: "start + 2 * overlap_size cfg \<le> ?e \<or> start + ?M div 2 + 2 \<le> ?e"
      using bm assms(2) by (auto simp: piece_end_def set_range_down)
    have h: "overlap_size cfg \<le> ?M div 2" using assms(2) by linarith
    let ?s = "if ?e < int (length text) then ?e - overlap_size cfg else ?e"
    let ?chunk = "text_chunk (u ''text'') (strip (py_slice text start ?e)) sf pn
                    [(u ''force_split'', PyBool True)] (snd acc)"
    let ?acc = "(fst acc @ [?chunk], snd (generate_chunk_id (u ''text'') (snd acc)))"
    have step: "force_split_loop (Suc fuel) cfg text sf pn start acc
          = force_split_loop fuel cfg text sf pn ?s ?acc"
      using True b by (simp add: Let_def piece_end_def)
    have adv: "start < ?s" using lo h assms(1) True by (auto split: if_splits)
    then have 1: "0 \<le> ?s" using Suc.prems(1) by linarith
    have 2: "nat (int (length text) - ?s) < fuel"
      using adv Suc.prems(2) True by linarith
    from Suc.IH[OF 1 2, of ?acc] step show ?thesis by simp
  qed
qed

lemma force_split_returns:
  assumes "1 \<le> overlap_size cfg" "2 * overlap_size cfg \<le> max_chunk_size cfg"
      and "length text < fuel"
  shows "\<exists>r. force_split fuel cfg text sf pn counter = Some (Inr r)"
  unfolding force_split_def
  by (rule force_split_loop_returns[OF assms(1,2)]) (use assms(3) in simp_all)

lemma split_spans_length: "para \<in> set (split_spans t p ms) \<Longrightarrow> length para \<le> length t"
  by (induction ms arbitrary: p) (auto simp: slice_def)

lemma rx_split_length: "para \<in> set (rx_split r t) \<Longrightarrow> length para \<le> length t"
  unfolding rx_split_def by (rule split_spans_length)

lemma md_loop_returns:
  assumes "1 \<le> overlap_size cfg" "2 * overlap_size cfg \<le> max_chunk_size cfg"
      and "\<forall>s \<in> set sections. length (section_text s) < fuel"
  shows "\<exists>r. md_loop fuel cfg sf pn sections acc = Some (Inr r)"
  using assms(3)
proof (induction sections arbitrary: acc)
  case Nil
  then show ?case by simp
next
  case (Cons s sections)
  obtain title body where s: "s = (title, body)" by (cases s)
  from Cons.prems have rest: "\<forall>s \<in> set sections. length (section_text s) < fuel"
    and p: "length (section_text s) < fuel" by simp_all
  obtain r where f: "force_split fuel cfg (section_text s) sf pn (snd acc) = Some (Inr r)"
    using force_split_returns[OF assms(1,2) p] by blast
  obtain subs counter where r: "r = (subs, counter)" by (cases r)
  have st: "section_text s = (case title of Some t \<Rightarrow> strip (t @ [10, 10] @ body) | None \<Rightarrow> strip body)"
    by (cases title) (simp_all add: section_text_def s)
  show ?case
    using Cons.IH[OF rest] f[unfolded st r] s by (simp add: Let_def)
qed

subsection \<open>Pairs that fit\<close>

lemma chunk_qa_loop_verbatim:
  assumes "\<forall>qa \<in> set qas. int (qa_char_count qa) \<le> max_chunk_size cfg"
  shows "map content (fst (foldl (chunk_qa_step cfg sf) acc qas)) = map content (fst acc) @ map full_text qas"
  using assms
proof (induction qas arbitrary: acc)
  case Nil
  then show ?case by simp
next
  case (Cons qa qas)
  then have "\<not> int (qa_char_count qa) > max_chunk_size cfg" by simp
  then have "map content (fst (chunk_qa_step cfg sf acc qa)) = map content (fst acc) @ [full_text qa]"
    by (simp add: chunk_qa_step_def qa_chunk_def)
  with Cons.IH[of "chunk_qa_step cfg sf acc qa"] Cons.prems show ?case by simp
qed

lemma chunk_qa_pairs_verbatim:
  assumes "\<forall>qa \<in> set qas. int (qa_char_count qa) \<le> max_chunk_size cfg"
  shows "map content (fst (chunk_qa_pairs cfg qas sf counter)) = map full_text qas"
  using chunk_qa_loop_verbatim[OF assms, of sf "([], counter)"] by (simp add: chunk_qa_pairs_def)

subsection \<open>A pair with one long paragraph\<close>

lemma match_paragraph_sep_none: "10 \<notin> set t \<Longrightarrow> match_at paragraph_sep t q = None"
proof -
  assume a: "10 \<notin> set t"
  have "\<not> (q < length t \<and> t ! q = 10)"
  proof
    assume b: "q < length t \<and> t ! q = 10"
    then have "t ! q \<in> set t" by (intro nth_mem) simp
    with a b show False by simp
  qed
  then have "rx_ends (lit 10) t (q, Map.empty) = []" by (auto simp: lit_def)
  then show ?thesis by (simp add: match_at_def paragraph_sep_def)
qed

lemma rx_split_one_paragraph: "10 \<notin> set t \<Longrightarrow> rx_split paragraph_sep t = [t]"
proof -
  assume "10 \<notin> set t"
  then have "\<forall>q \<ge> 0. match_at paragraph_sep t q = None" by (simp add: match_paragraph_sep_none)
  from finditer_from_none[OF this] show ?thesis by (simp add: rx_split_def finditer_def)
qed

lemma strip_id: "t \<noteq> [] \<Longrightarrow> \<not> is_space (hd t) \<Longrightarrow> \<not> is_space (last t) \<Longrightarrow> strip t = t"
proof -
  assume a: "t \<noteq> []" "\<not> is_space (hd t)" "\<not> is_space (last t)"
  then have 1: "dropWhile is_space t = t" by (cases t) simp_all
  from a have "dropWhile is_space (rev t) = rev t" by (cases "rev t") (simp_all add: hd_rev)
  with 1 show ?thesis by (simp add: strip_def lstrip_def rstrip_def)
qed

lemma one_paragraph_chunk:
  assumes "10 \<notin> set (qa_answer qa)" "qa_answer qa \<noteq> []"
      "\<not> is_space (hd (qa_answer qa))" "\<not> is_space (last (qa_answer qa))"
      "qa_question qa \<noteq> []" "\<not> is_space (hd (qa_question qa))"
  shows "map content (fst (chunk_qa_pairs cfg [qa] sf counter)) = [full_text qa]"
proof (cases "int (qa_char_count qa) > max_chunk_size cfg")
  case False
  then show ?thesis using chunk_qa_pairs_verbatim[of "[qa]" cfg sf counter] by simp
next
  case True
  have s: "strip (qa_answer qa) = qa_answer qa" using assms(2,3,4) by (rule strip_id)
  have f: "strip (full_text qa) = full_text qa"
    using assms by (intro strip_id) (simp_all add: full_text_def)
  have "strip ((qa_question qa @ [10, 10] @ qa_answer qa) @ [10, 10]) = strip (qa_question qa @ [10, 10] @ qa_answer qa)"
    by (rule strip_append_newlines)
  with f have c: "strip (qa_question qa @ [10, 10] @ qa_answer qa @ [10, 10]) = full_text qa"
    by (simp add: full_text_def)
  have "map content (fst (split_long_qa cfg qa sf counter)) = [full_text qa]"
    using assms(2) s c
    by (simp add: split_long_qa_def rx_split_one_paragraph[OF assms(1)] split_step_def Let_def
          split_chunk_def)
  with True show ?thesis by (simp add: chunk_qa_pairs_def chunk_qa_step_def)
qed

lemma two_paragraphs_eq:
  "two_paragraphs = [97, 97, 97, 97, 97, 97, 97, 10, 10, 98, 98, 98, 98, 98, 98, 98, 98, 98, 98]"
  by (simp add: two_paragraphs_def u_def)

lemma two_paragraphs_split:
  "rx_split paragraph_sep two_paragraphs
     = [[97, 97, 97, 97, 97, 97, 97], [98, 98, 98, 98, 98, 98, 98, 98, 98, 98]]"
  by (simp add: paragraph_sep_def two_paragraphs_eq rx_eval)

lemma two_paragraphs_strip: "strip two_paragraphs \<noteq> []"
  by (simp add: two_paragraphs_eq rx_eval)

lemma two_paragraphs_plain:
  "chunk_plain_text fuel small_config two_paragraphs None None 0
     = Some (Inr ([text_chunk (u ''text'') (u ''aaaaaaa'') None None [] 0,
                   text_chunk (u ''text'') (u ''a'' @ [10, 10, 10, 10] @ u ''bbbbbbbbbb'') None None [] 1],
                  2))"
  by (simp add: chunk_plain_text_def two_paragraphs_strip two_paragraphs_split)
     (simp add: small_config_def py_slice_from_def clamp_def generate_chunk_id_def u_def rx_eval)

lemma two_paragraphs_sections:
  "md_sections_of two_paragraphs = [(None, two_paragraphs)]"
  by (simp add: md_sections_of_def splitlines_def two_paragraphs_eq is_linebreak_def md_line_def
        join_lines_def rx_eval)

lemma two_paragraphs_markdown:
  "chunk_markdown fuel small_config two_paragraphs None None 0
     = chunk_plain_text fuel small_config two_paragraphs None None 0"
  by (simp add: chunk_markdown_def two_paragraphs_strip two_paragraphs_sections)

lemma two_paragraphs_fuel: "markdown_fuel two_paragraphs = 39"
  by (simp add: markdown_fuel_def two_paragraphs_sections section_text_def)
     (simp add: two_paragraphs_eq rx_eval)

lemma short_pair_longest: "longest_paragraph (qa_answer short_pair) = 3"
  by (simp add: longest_paragraph_def short_pair_def paragraph_sep_def u_def rx_eval)

lemma chunk_qa_loop_acc:
  "foldl (chunk_qa_step cfg sf) acc qas
     = (fst acc @ fst (foldl (chunk_qa_step cfg sf) ([], snd acc) qas),
        snd (foldl (chunk_qa_step cfg sf) ([], snd acc) qas))"
proof (induction qas arbitrary: acc)
  case Nil
  then show ?case by simp
next
  case (Cons qa qas)
  have s: "chunk_qa_step cfg sf acc qa
       = (fst acc @ fst (chunk_qa_step cfg sf ([], snd acc) qa), snd (chunk_qa_step cfg sf ([], snd acc) qa))"
    by (simp add: chunk_qa_step_def)
  show ?case
    by (simp del: foldl_Cons add: foldl_Cons[of _ acc] foldl_Cons[of _ "([], snd acc)"])
       (subst Cons.IH, subst (2 3) Cons.IH, simp add: s)
qed

lemma chunk_qa_pairs_append:
  "chunk_qa_pairs cfg (qas1 @ qas2) sf n
     = (fst (chunk_qa_pairs cfg qas1 sf n)
          @ fst (chunk_qa_pairs cfg qas2 sf (snd (chunk_qa_pairs cfg qas1 sf n))),
        snd (chunk_qa_pairs cfg qas2 sf (snd (chunk_qa_pairs cfg qas1 sf n))))"
  unfolding chunk_qa_pairs_def
  by (simp only: foldl_append) (subst chunk_qa_loop_acc, simp)

lemma chunk_qa_pairs_fit:
  assumes "int (qa_char_count qa) \<le> max_chunk_size cfg"
  shows "chunk_qa_pairs cfg (qa # qas) sf n
     = (qa_chunk qa sf n # fst (chunk_qa_pairs cfg qas sf (Suc n)), snd (chunk_qa_pairs cfg qas sf (Suc n)))"
proof -
  have "chunk_qa_step cfg sf ([], n) qa = ([qa_chunk qa sf n], Suc n)"
    using assms by (simp add: chunk_qa_step_def generate_chunk_id_def)
  then show ?thesis
    unfolding chunk_qa_pairs_def by (simp del: foldl_Cons add: foldl_Cons[of _ "([], n)"])
      (subst chunk_qa_loop_acc, simp)
qed

lemma chunk_qa_pairs_pair:
  assumes "int (qa_char_count qa) \<le> max_chunk_size cfg"
  shows "fst (chunk_qa_pairs cfg (qas1 @ qa # qas2) sf n)
     = fst (chunk_qa_pairs cfg qas1 sf n)
       @ qa_chunk qa sf (snd (chunk_qa_pairs cfg qas1 sf n))
       # fst (chunk_qa_pairs cfg qas2 sf (Suc (snd (chunk_qa_pairs cfg qas1 sf n))))"
  by (simp add: chunk_qa_pairs_append chunk_qa_pairs_fit[OF assms])

lemma plain_loop_design:
  assumes ov: "1 \<le> overlap_size cfg" and sane: "2 * overlap_size cfg \<le> max_chunk_size cfg"
      and fuel: "\<forall>para \<in> set paras. length (strip para) < fuel"
      and hyp: "if cur = [] then no_overlong_after_pending (max_chunk_size cfg) paras
                else \<forall>para \<in> set paras. int (length (strip para)) \<le> max_chunk_size cfg"
      and acc: "\<forall>c \<in> set (fst acc). int (length (content c)) \<le> max_chunk_size cfg + overlap_size cfg + 2"
      and cur: "int (length (strip cur)) \<le> max_chunk_size cfg + overlap_size cfg + 2"
  shows "\<exists>acc' cur'. plain_loop fuel cfg sf pn paras acc cur = Some (Inr (acc', cur'))
           \<and> (\<forall>c \<in> set (fst acc'). int (length (content c)) \<le> max_chunk_size cfg + overlap_size cfg + 2)
           \<and> int (length (strip cur')) \<le> max_chunk_size cfg + overlap_size cfg + 2"
  using fuel hyp acc cur
proof (induction paras arbitrary: acc cur)
  case Nil
  then show ?case by simp
next
  case (Cons para0 paras)
  let ?M = "max_chunk_size cfg" and ?B = "max_chunk_size cfg + overlap_size cfg + 2"
  let ?para = "strip para0"
  from sane ov have M: "0 \<le> ?M" by linarith
  from Cons.prems(1) have frest: "\<forall>para \<in> set paras. length (strip para) < fuel"
    and fp: "length ?para < fuel" by simp_all
  show ?case
  proof (cases "?para = []")
    case True
    have h: "if cur = [] then no_overlong_after_pending ?M paras
             else \<forall>para \<in> set paras. int (length (strip para)) \<le> ?M"
      using Cons.prems(2) True by (auto split: if_splits)
    from Cons.IH[OF frest h Cons.prems(3,4)] True show ?thesis by simp
  next
    case ne: False
    show ?thesis
    proof (cases "int (length cur) + int (length ?para) > ?M")
      case False
      then have fit: "int (length ?para) \<le> ?M" by linarith
      have h: "if cur @ ?para @ [10, 10] = [] then no_overlong_after_pending ?M paras
               else \<forall>para \<in> set paras. int (length (strip para)) \<le> ?M"
        using Cons.prems(2) ne fit by (auto simp: list_all_iff split: if_splits)
      have "length (strip ((cur @ ?para) @ [10, 10])) \<le> length (cur @ ?para)"
        by (rule length_strip_newlines)
      with False ov have c: "int (length (strip (cur @ ?para @ [10, 10]))) \<le> ?B" by simp
      from Cons.IH[OF frest h Cons.prems(3) c] ne False show ?thesis by (simp add: Let_def)
    next
      case big: True
      show ?thesis
      proof (cases "cur = []")
        case False
        with Cons.prems(2) have fit: "int (length ?para) \<le> ?M" by simp
        let ?chunk = "text_chunk (u ''text'') (strip cur) sf pn [] (snd acc)"
        let ?ovl = "if int (length cur) > overlap_size cfg
                    then py_slice_from cur (- overlap_size cfg) else []"
        let ?acc = "(fst acc @ [?chunk], snd (generate_chunk_id (u ''text'') (snd acc)))"
        let ?cur = "?ovl @ [10, 10] @ ?para @ [10, 10]"
        have h: "if ?cur = [] then no_overlong_after_pending ?M paras
                 else \<forall>para \<in> set paras. int (length (strip para)) \<le> ?M"
          using Cons.prems(2) False by simp
        have a: "\<forall>c \<in> set (fst ?acc). int (length (content c)) \<le> ?B"
          using Cons.prems(3,4) by (simp add: text_chunk_def)
        have "length (strip ((?ovl @ [10, 10] @ ?para) @ [10, 10])) \<le> length (?ovl @ [10, 10] @ ?para)"
          by (rule length_strip_newlines)
        moreover have "int (length (?ovl @ [10, 10] @ ?para)) \<le> overlap_size cfg + 2 + int (length ?para)"
          using overlap_tail_bound[OF ov, of cur] by simp
        ultimately have c: "int (length (strip ?cur)) \<le> ?B" using fit by simp
        from Cons.IH[OF frest h a c] ne big False show ?thesis by (simp add: Let_def)
      next
        case True
        with big have long: "int (length ?para) > ?M" by simp
        from force_split_returns[OF ov sane fp, of sf pn "snd acc"] obtain r where
          f: "force_split fuel cfg ?para sf pn (snd acc) = Some (Inr r)" by blast
        obtain subs counter where r: "r = (subs, counter)" by (cases r)
        from force_split_bound[OF M f] r ov
        have s: "\<forall>c \<in> set subs. int (length (content c)) \<le> ?B" by fastforce
        have h: "if ([]::ustr) = [] then no_overlong_after_pending ?M paras
                 else \<forall>para \<in> set paras. int (length (strip para)) \<le> ?M"
          using Cons.prems(2) True ne long by simp
        have a: "\<forall>c \<in> set (fst (fst acc @ subs, counter)). int (length (content c)) \<le> ?B"
          using Cons.prems(3) s by auto
        have c: "int (length (strip [])) \<le> ?B"
          using M ov by (simp add: strip_def lstrip_def rstrip_def)
        from Cons.IH[OF frest h a c] ne big True f r show ?thesis by (simp add: Let_def)
      qed
    qed
  qed
qed

lemma chunk_plain_text_design:
  assumes ov: "1 \<le> overlap_size cfg" and sane: "2 * overlap_size cfg \<le> max_chunk_size cfg"
      and fuel: "length text < fuel"
      and hyp: "no_overlong_after_pending (max_chunk_size cfg) (rx_split paragraph_sep text)"
  shows "\<exists>chunks n'. chunk_plain_text fuel cfg text sf pn n = Some (Inr (chunks, n'))
           \<and> (\<forall>c \<in> set chunks. int (length (content c)) \<le> max_chunk_size cfg + overlap_size cfg + 2)"
proof (cases "strip text = []")
  case True
  then show ?thesis by (simp add: chunk_plain_text_def)
next
  case False
  have f: "\<forall>para \<in> set (rx_split paragraph_sep text). length (strip para) < fuel"
  proof
    fix para assume "para \<in> set (rx_split paragraph_sep text)"
    from rx_split_length[OF this] length_strip_le[of para] fuel
    show "length (strip para) < fuel" by linarith
  qed
  from sane ov have M: "0 \<le> max_chunk_size cfg" by linarith
  have c: "int (length (strip [])) \<le> max_chunk_size cfg + overlap_size cfg + 2"
    using M ov by (simp add: strip_def lstrip_def rstrip_def)
  from plain_loop_design[OF ov sane f, of "[]" "([], n)" sf pn] hyp c
  obtain acc cur where
    l: "plain_loop fuel cfg sf pn (rx_split paragraph_sep text) ([], n) [] = Some (Inr (acc, cur))"
    and a: "\<forall>c \<in> set (fst acc). int (length (content c)) \<le> max_chunk_size cfg + overlap_size cfg + 2"
    and b: "int (length (strip cur)) \<le> max_chunk_size cfg + overlap_size cfg + 2"
    by auto
  show ?thesis
  proof (cases "strip cur = []")
    case True
    with False l a show ?thesis by (cases acc) (simp add: chunk_plain_text_def)
  next
    case ne: False
    with False l a b show ?thesis by (simp add: chunk_plain_text_def text_chunk_def)
  qed
qed

lemma chunk_markdown_design:
  assumes ov: "1 \<le> overlap_size cfg" and sane: "2 * overlap_size cfg \<le> max_chunk_size cfg"
      and fuel: "markdown_fuel text \<le> fuel"
  shows "(\<not> md_headingless text \<longrightarrow>
           (\<exists>chunks n'. chunk_markdown fuel cfg text sf pn n = Some (Inr (chunks, n'))
              \<and> (\<forall>c \<in> set chunks. int (length (content c)) \<le> max_chunk_size cfg + overlap_size cfg)))
       \<and> (md_headingless text
            \<and> no_overlong_after_pending (max_chunk_size cfg) (rx_split paragraph_sep text) \<longrightarrow>
           (\<exists>chunks n'. chunk_markdown fuel cfg text sf pn n = Some (Inr (chunks, n'))
              \<and> (\<forall>c \<in> set chunks. int (length (content c)) \<le> max_chunk_size cfg + overlap_size cfg + 2)))"
proof (intro conjI impI)
  from sane ov have M: "0 \<le> max_chunk_size cfg" by linarith
  have l: "length text < fuel" using fuel by (simp add: markdown_fuel_def)
  {
    assume h: "\<not> md_headingless text"
    show "\<exists>chunks n'. chunk_markdown fuel cfg text sf pn n = Some (Inr (chunks, n'))
              \<and> (\<forall>c \<in> set chunks. int (length (content c)) \<le> max_chunk_size cfg + overlap_size cfg)"
    proof (cases "strip text = []")
      case True
      then show ?thesis by (simp add: chunk_markdown_def)
    next
      case False
      have 2: "\<forall>s \<in> set (md_sections_of text). length (section_text s) < fuel"
      proof
        fix s assume "s \<in> set (md_sections_of text)"
        then have "length (section_text s) \<in> set (map (\<lambda>s. length (section_text s)) (md_sections_of text))"
          by simp
        from foldr_max_ge[OF this] fuel show "length (section_text s) < fuel"
          by (simp add: markdown_fuel_def)
      qed
      from md_loop_returns[OF ov sane 2, of sf pn "([], n)"] obtain r where
        r: "md_loop fuel cfg sf pn (md_sections_of text) ([], n) = Some (Inr r)" by blast
      from md_loop_bound[OF M r] ov
      have "\<forall>c \<in> set (fst r). int (length (content c)) \<le> max_chunk_size cfg + overlap_size cfg"
        by fastforce
      with r False h show ?thesis
        by (cases r) (auto simp: chunk_markdown_def md_headingless_def Let_def)
    qed
  }
  {
    assume h: "md_headingless text \<and> no_overlong_after_pending (max_chunk_size cfg) (rx_split paragraph_sep text)"
    from chunk_plain_text_design[OF ov sane l, of sf pn n] h
    obtain chunks n' where "chunk_plain_text fuel cfg text sf pn n = Some (Inr (chunks, n'))"
      "\<forall>c \<in> set chunks. int (length (content c)) \<le> max_chunk_size cfg + overlap_size cfg + 2"
      by blast
    with h show "\<exists>chunks n'. chunk_markdown fuel cfg text sf pn n = Some (Inr (chunks, n'))
              \<and> (\<forall>c \<in> set chunks. int (length (content c)) \<le> max_chunk_size cfg + overlap_size cfg + 2)"
      by (cases "strip text = []") (auto simp: chunk_markdown_def md_headingless_def Let_def)
  }
qed

text \<open>
  Claim C1, amended. Every chunk has \<open>char_count == len(content)\<close>. For a configuration
  with \<open>1 \<le> overlap_size\<close> and \<open>2 * overlap_size \<le> max_chunk_size\<close>: a pair with
  \<open>char_count \<le> max_chunk_size\<close>, wherever it stands in the list, becomes one chunk whose
  content is its \<open>full_text\<close>; every chunk of \<open>chunk_qa_pairs\<close> has at most
  \<open>max(max_chunk_size, Q + 8 + overlap_size + P)\<close> characters, where \<open>Q\<close> bounds the
  questions and \<open>P\<close> the stripped paragraphs of the answers (an answer is cut only between
  paragraphs); \<open>chunk_plain_text\<close> returns chunks of at most
  \<open>max_chunk_size + overlap_size + 2\<close> characters on a text in which no paragraph longer
  than \<open>max_chunk_size\<close> comes after a non-empty paragraph that fits (the overlap is joined
  to the next paragraph with two newlines); \<open>chunk_markdown\<close> returns chunks of at most
  \<open>max_chunk_size + overlap_size\<close> characters when it splits by headings, and is
  \<open>chunk_plain_text\<close> when its sections are a single one without a title.
\<close>

theorem chunker_content_length:
  assumes "1 \<le> overlap_size cfg" "2 * overlap_size cfg \<le> max_chunk_size cfg"
  shows "(\<forall>c. char_count c = length (content c))
    \<and> (int (qa_char_count qa) \<le> max_chunk_size cfg
         \<longrightarrow> fst (chunk_qa_pairs cfg (qas1 @ qa # qas2) sf n)
               = fst (chunk_qa_pairs cfg qas1 sf n)
                 @ qa_chunk qa sf (snd (chunk_qa_pairs cfg qas1 sf n))
                 # fst (chunk_qa_pairs cfg qas2 sf (Suc (snd (chunk_qa_pairs cfg qas1 sf n))))
             \<and> content (qa_chunk qa sf (snd (chunk_qa_pairs cfg qas1 sf n))) = full_text qa)
    \<and> ((\<forall>qa \<in> set qas. length (qa_question qa) \<le> Q \<and> longest_paragraph (qa_answer qa) \<le> P)
         \<longrightarrow> (\<forall>c \<in> set (fst (chunk_qa_pairs cfg qas sf n)).
                int (length (content c))
                  \<le> max (max_chunk_size cfg) (int Q + 8 + overlap_size cfg + int P)))
    \<and> (length text < fuel
        \<and> no_overlong_after_pending (max_chunk_size cfg) (rx_split paragraph_sep text)
         \<longrightarrow> (\<exists>chunks n'. chunk_plain_text fuel cfg text sf pn n = Some (Inr (chunks, n'))
                \<and> (\<forall>c \<in> set chunks. int (length (content c))
                       \<le> max_chunk_size cfg + overlap_size cfg + 2)))
    \<and> (markdown_fuel text \<le> fuel \<and> \<not> md_headingless text
         \<longrightarrow> (\<exists>chunks n'. chunk_markdown fuel cfg text sf pn n = Some (Inr (chunks, n'))
                \<and> (\<forall>c \<in> set chunks. int (length (content c))
                       \<le> max_chunk_size cfg + overlap_size cfg)))
    \<and> (markdown_fuel text \<le> fuel \<and> md_headingless text
        \<and> no_overlong_after_pending (max_chunk_size cfg) (rx_split paragraph_sep text)
         \<longrightarrow> (\<exists>chunks n'. chunk_markdown fuel cfg text sf pn n = Some (Inr (chunks, n'))
                \<and> (\<forall>c \<in> set chunks. int (length (content c))
                       \<le> max_chunk_size cfg + overlap_size cfg + 2)))"
proof -
  have 1: "\<forall>c. char_count c = length (content c)" by (simp add: char_count_def)
  have 2: "int (qa_char_count qa) \<le> max_chunk_size cfg
         \<longrightarrow> fst (chunk_qa_pairs cfg (qas1 @ qa # qas2) sf n)
               = fst (chunk_qa_pairs cfg qas1 sf n)
                 @ qa_chunk qa sf (snd (chunk_qa_pairs cfg qas1 sf n))
                 # fst (chunk_qa_pairs cfg qas2 sf (Suc (snd (chunk_qa_pairs cfg qas1 sf n))))
             \<and> content (qa_chunk qa sf (snd (chunk_qa_pairs cfg qas1 sf n))) = full_text qa"
    using chunk_qa_pairs_pair[of qa cfg qas1 qas2 sf n] by (simp add: qa_chunk_def)
  have 3: "(\<forall>qa \<in> set qas. length (qa_question qa) \<le> Q \<and> longest_paragraph (qa_answer qa) \<le> P)
         \<longrightarrow> (\<forall>c \<in> set (fst (chunk_qa_pairs cfg qas sf n)).
                int (length (content c))
                  \<le> max (max_chunk_size cfg) (int Q + 8 + overlap_size cfg + int P))"
    using chunk_qa_pairs_bound[OF assms(1)] by blast
  note 4 = chunk_plain_text_design[OF assms, of "text" fuel sf pn n]
  have 5: "markdown_fuel text \<le> fuel \<Longrightarrow> \<not> md_headingless text
         \<longrightarrow> (\<exists>chunks n'. chunk_markdown fuel cfg text sf pn n = Some (Inr (chunks, n'))
                \<and> (\<forall>c \<in> set chunks. int (length (content c))
                       \<le> max_chunk_size cfg + overlap_size cfg))"
    and 6: "markdown_fuel text \<le> fuel \<Longrightarrow> md_headingless text
        \<and> no_overlong_after_pending (max_chunk_size cfg) (rx_split paragraph_sep text)
         \<longrightarrow> (\<exists>chunks n'. chunk_markdown fuel cfg text sf pn n = Some (Inr (chunks, n'))
                \<and> (\<forall>c \<in> set chunks. int (length (content c))
                       \<le> max_chunk_size cfg + overlap_size cfg + 2))"
    using chunk_markdown_design[OF assms, of "text" fuel sf pn n] by simp_all
  from 1 2 3 4 5 6 show ?thesis by blast
qed

lemma heading_text_eq: "heading_text = [35, 32, 84, 10, 104, 101, 108, 108, 111]"
  by (simp add: heading_text_def u_def)

lemma heading_text_sections:
  "md_sections_of heading_text = [(Some [35, 32, 84], [104, 101, 108, 108, 111])]"
  by (simp add: md_sections_of_def splitlines_def heading_text_eq is_linebreak_def md_line_def
        join_lines_def rx_eval)

lemma heading_text_markdown:
  "chunk_markdown fuel small_config heading_text None None 0
     = Some (Inr ([text_chunk (u ''md'') (u ''# T'' @ [10, 10] @ u ''hello'') None None
                     [(u ''md_title'', PyStr (u ''# T''))] 0], 1))"
  by (simp add: chunk_markdown_def heading_text_sections)
     (simp add: heading_text_eq small_config_def generate_chunk_id_def u_def rx_eval)

lemma heading_text_fuel: "markdown_fuel heading_text = 20"
  by (simp add: markdown_fuel_def heading_text_sections section_text_def)
     (simp add: heading_text_eq rx_eval)

text \<open>
  A paragraph longer than \<open>max_chunk_size\<close> that comes while \<open>current_content\<close> is pending
  is not split: with \<open>max_chunk_size = 10\<close> and \<open>overlap_size = 3\<close> the 30 characters after
  \<open>aaaaaaa\<close> and a blank line make a chunk of 35 characters.
\<close>

lemma pending_overlong_plain:
  "map (\<lambda>c. length (content c))
     (fst (projr (the (chunk_plain_text fuel small_config pending_overlong None None 0)))) = [7, 35]"
  by (simp add: chunk_plain_text_def pending_overlong_def u_def paragraph_sep_def rx_eval)
     (simp add: small_config_def text_chunk_def py_slice_from_def clamp_def rx_eval)

text \<open>
  The theorem at the configuration \<open>max_chunk_size = 10\<close>, \<open>overlap_size = 3\<close>: a pair that
  fits, a text of two paragraphs whose second chunk reaches the bound of 15 characters, and
  a text with a heading.
\<close>

theorem chunker_content_length_witness:
  "1 \<le> overlap_size small_config
   \<and> 2 * overlap_size small_config \<le> max_chunk_size small_config
   \<and> int (qa_char_count short_pair) \<le> max_chunk_size small_config
   \<and> content (fst (chunk_qa_pairs small_config ([short_pair] @ short_pair # []) None 0) ! 1)
       = u ''q'' @ [10, 10] @ u ''abc''
   \<and> length (qa_question short_pair) \<le> 1
   \<and> longest_paragraph (qa_answer short_pair) \<le> 3
   \<and> length two_paragraphs < 40
   \<and> no_overlong_after_pending (max_chunk_size small_config) (rx_split paragraph_sep two_paragraphs)
   \<and> (\<exists>chunks n'. chunk_plain_text 40 small_config two_paragraphs None None 0 = Some (Inr (chunks, n'))
        \<and> map content chunks = [u ''aaaaaaa'', u ''a'' @ [10, 10, 10, 10] @ u ''bbbbbbbbbb'']
        \<and> map (\<lambda>c. int (length (content c))) chunks = [7, 15]
        \<and> max_chunk_size small_config + overlap_size small_config + 2 = 15)
   \<and> markdown_fuel two_paragraphs \<le> 40 \<and> md_headingless two_paragraphs
   \<and> (\<exists>chunks n'. chunk_markdown 40 small_config two_paragraphs None None 0 = Some (Inr (chunks, n'))
        \<and> map (\<lambda>c. int (length (content c))) chunks = [7, 15])
   \<and> markdown_fuel heading_text \<le> 40 \<and> \<not> md_headingless heading_text
   \<and> (\<exists>chunks n'. chunk_markdown 40 small_config heading_text None None 0 = Some (Inr (chunks, n'))
        \<and> map (\<lambda>c. int (length (content c))) chunks = [10])"
proof -
  have h: "1 \<le> overlap_size small_config" "2 * overlap_size small_config \<le> max_chunk_size small_config"
    by (simp_all add: small_config_def)
  have f: "int (qa_char_count short_pair) \<le> max_chunk_size small_config"
    "length (qa_question short_pair) \<le> 1" "full_text short_pair = u ''q'' @ [10, 10] @ u ''abc''"
    by (simp_all add: small_config_def short_pair_def qa_char_count_def full_text_def u_def)
  have l: "length two_paragraphs < 40" by (simp add: two_paragraphs_eq)
  have np: "no_overlong_after_pending (max_chunk_size small_config) (rx_split paragraph_sep two_paragraphs)"
    by (simp add: two_paragraphs_split small_config_def) (simp add: rx_eval)
  have hl: "md_headingless two_paragraphs" "\<not> md_headingless heading_text"
    by (simp_all add: md_headingless_def two_paragraphs_sections heading_text_sections)
  note t = chunker_content_length[OF h, of short_pair "[short_pair]" "[]" None 0 "[short_pair]" 1 3
      two_paragraphs 40 None]
  note t2 = chunker_content_length[OF h, of short_pair "[]" "[]" None 0 "[]" 0 0 heading_text 40 None]
  have "map content (fst (chunk_qa_pairs small_config [short_pair] None 0)) = [full_text short_pair]"
    using chunk_qa_pairs_verbatim[of "[short_pair]" small_config None 0] f(1) by simp
  then have "length (fst (chunk_qa_pairs small_config [short_pair] None 0)) = 1"
    using length_map[of content "fst (chunk_qa_pairs small_config [short_pair] None 0)"] by simp
  with t f have q: "content (fst (chunk_qa_pairs small_config ([short_pair] @ short_pair # []) None 0) ! 1)
       = u ''q'' @ [10, 10] @ u ''abc''"
    by (simp add: nth_append)
  from t l np obtain chunks n' where
    p: "chunk_plain_text 40 small_config two_paragraphs None None 0 = Some (Inr (chunks, n'))"
    by blast
  from two_paragraphs_plain[of 40] p
  have c: "map content chunks = [u ''aaaaaaa'', u ''a'' @ [10, 10, 10, 10] @ u ''bbbbbbbbbb'']"
    by (auto simp: text_chunk_def)
  have len: "map (\<lambda>c. int (length (content c))) chunks = [7, 15]"
  proof -
    have "map (\<lambda>c. int (length (content c))) chunks
            = map (\<lambda>s. int (length s)) (map content chunks)" by (simp add: comp_def)
    also have "\<dots> = [7, 15]" by (simp only: c) (simp add: u_def)
    finally show ?thesis .
  qed
  have b: "max_chunk_size small_config + overlap_size small_config + 2 = 15"
    by (simp add: small_config_def)
  have m: "chunk_markdown 40 small_config two_paragraphs None None 0 = Some (Inr (chunks, n'))"
    using p by (simp add: two_paragraphs_markdown)
  have fu: "markdown_fuel two_paragraphs \<le> 40" "markdown_fuel heading_text \<le> 40"
    by (simp_all add: two_paragraphs_fuel heading_text_fuel)
  from t2 fu(2) hl(2) obtain hchunks hn where
    hm: "chunk_markdown 40 small_config heading_text None None 0 = Some (Inr (hchunks, hn))"
    by blast
  with heading_text_markdown[of 40]
  have hlen: "map (\<lambda>c. int (length (content c))) hchunks = [10]"
    by (auto simp: text_chunk_def u_def)
  from h f(1,2) l np q p c len b m fu hl hm hlen show ?thesis
    by (simp add: short_pair_longest)
qed

text \<open>
  C1, as stated, fails. With the default configuration a pair whose answer is one paragraph
  of 1700 characters becomes a single chunk of 1703 characters, more than 1500 + 100; with
  \<open>max_chunk_size = 10\<close> and \<open>overlap_size = 3\<close> the second chunk of the two-paragraph text
  has 15 characters, more than 13.
\<close>

theorem chunker_content_length_counterexample:
  "max_chunk_size default_chunker_config + overlap_size default_chunker_config = 1600
   \<and> map char_count (fst (chunk_qa_pairs default_chunker_config [long_paragraph_pair] None 0)) = [1703]
   \<and> max_chunk_size small_config + overlap_size small_config = 13
   \<and> chunk_plain_text 40 small_config two_paragraphs None None 0
       = Some (Inr ([text_chunk (u ''text'') (u ''aaaaaaa'') None None [] 0,
                     text_chunk (u ''text'') (u ''a'' @ [10, 10, 10, 10] @ u ''bbbbbbbbbb'') None None [] 1],
                    2))
   \<and> char_count (text_chunk (u ''text'') (u ''a'' @ [10, 10, 10, 10] @ u ''bbbbbbbbbb'') None None [] 1) = 15"
proof -
  have "map content (fst (chunk_qa_pairs default_chunker_config [long_paragraph_pair] None 0))
          = [full_text long_paragraph_pair]"
    by (rule one_paragraph_chunk) (simp_all add: long_paragraph_pair_def u_def is_space_def)
  then have "map length
               (map content (fst (chunk_qa_pairs default_chunker_config [long_paragraph_pair] None 0)))
          = [1703]"
    by (simp only:) (simp add: full_text_def long_paragraph_pair_def u_def)
  moreover have "char_count = length \<circ> content"
    by (rule ext) (simp add: char_count_def)
  ultimately have 1: "map char_count
        (fst (chunk_qa_pairs default_chunker_config [long_paragraph_pair] None 0)) = [1703]"
    by simp
  have 2: "char_count (text_chunk (u ''text'') (u ''a'' @ [10, 10, 10, 10] @ u ''bbbbbbbbbb'') None None [] 1) = 15"
    by (simp add: char_count_def text_chunk_def u_def)
  from 1 2 two_paragraphs_plain[of 40] show ?thesis
    by (simp add: default_chunker_config_def small_config_def)
qed

section \<open>The digit limit of \<open>int\<close>\<close>

lemma replace_crlf_id: "13 \<notin> set s \<Longrightarrow> replace_crlf s = s"
  by (induction s rule: replace_crlf.induct) auto

lemma takeWhile_absent: "x \<notin> set t \<Longrightarrow> takeWhile (\<lambda>c. c = x) (drop p t) = []"
proof (cases "drop p t")
  case Nil
  then show ?thesis by simp
next
  case (Cons a as)
  assume "x \<notin> set t"
  moreover have "a \<in> set (drop p t)" using Cons by simp
  then have "a \<in> set t" by (rule in_set_dropD)
  ultimately have "a \<noteq> x" by auto
  with Cons show ?thesis by simp
qed

lemma newlines_sub_id:
  assumes "10 \<notin> set t"
  shows "rx_sub (Rep (\<lambda>x. x = 10) 3 None True) repl t = t"
proof -
  have "\<forall>q \<ge> 0. match_at (Rep (\<lambda>x. x = 10) 3 None True) t q = None"
    by (simp add: match_at_def takeWhile_absent[OF assms] rep_counts_def)
  from finditer_from_none[OF this] show ?thesis by (simp add: rx_sub_def finditer_def)
qed

lemma parser_normalize_text_id:
  assumes "13 \<notin> set t" "10 \<notin> set t" "t \<noteq> []" "\<not> is_space (hd t)" "\<not> is_space (last t)"
  shows "parser_normalize_text t = t"
proof -
  have "map (\<lambda>c. if c = 13 then 10 else c) t = t" using assms(1) by (intro map_idI) auto
  then show ?thesis
    using assms by (simp add: parser_normalize_text_def replace_crlf_id newlines_sub_id strip_id)
qed

text \<open>The two heading patterns need a \<open>#\<close>.\<close>

lemma heading_pattern_none:
  assumes "35 \<notin> set t"
  shows "finditer (Seq Bol (Seq (Rep (\<lambda>x. x = 35) 1 hi True) X)) t = []"
proof -
  have "\<forall>q \<ge> 0. match_at (Seq Bol (Seq (Rep (\<lambda>x. x = 35) 1 hi True) X)) t q = None"
    by (auto simp: match_at_def takeWhile_absent[OF assms] rep_counts_def split: option.splits)
  from finditer_from_none[OF this] show ?thesis by (simp add: finditer_def)
qed

lemma collect_error:
  assumes "i < length xs" "\<forall>j < i. xs ! j = []" "xs ! i = Inl e # ys"
  shows "collect (concat xs) = Inl e"
  using assms
proof (induction xs arbitrary: i)
  case Nil
  then show ?case by simp
next
  case (Cons x xs)
  show ?case
  proof (cases i)
    case 0
    with Cons.prems(3) show ?thesis by simp
  next
    case (Suc k)
    with Cons.prems have "x = []" "k < length xs" "\<forall>j < k. xs ! j = []" "xs ! k = Inl e # ys"
      by auto
    with Cons.IH[of k] show ?thesis by simp
  qed
qed

lemma tail_ends:
  "\<exists>e c' tl. rx_ends (rx_seq [one_of num_punct, ws_star, Grp 2 dot_plus_lazy, rx_alt [lit 63, lit 65311, Eol]])
     (replicate n 49 @ step_tail) (n, c) = (e, c') # tl \<and> c' 1 = c 1"
  by (simp add: step_tail_def one_of_def num_punct_def ws_star_def dot_plus_lazy_def lit_def
        rep_counts_def is_space_def dot_def nth_append upt_rec)

lemma digits_prefix:
  "takeWhile (\<lambda>c. 48 \<le> c \<and> c \<le> 57) (replicate n 49 @ step_tail) = replicate n 49"
proof -
  have "takeWhile (\<lambda>c. 48 \<le> c \<and> c \<le> 57) (replicate n 49 @ step_tail)
          = replicate n 49 @ takeWhile (\<lambda>c. 48 \<le> c \<and> c \<le> (57::nat)) step_tail"
    by (rule takeWhile_append2) simp
  then show ?thesis by (simp add: step_tail_def)
qed

lemma numbered_pattern_first:
  assumes "0 < n"
  shows "\<exists>m ms. finditer (Seq Bol (Seq (Grp 1 (Rep (\<lambda>c. 48 \<le> c \<and> c \<le> 57) 1 None True))
            (rx_seq [one_of num_punct, ws_star, Grp 2 dot_plus_lazy, rx_alt [lit 63, lit 65311, Eol]])))
            (replicate n 49 @ step_tail) = m # ms
         \<and> m_caps m 1 = Some (0, n)"
proof -
  let ?t = "replicate n 49 @ step_tail"
  let ?X = "rx_seq [one_of num_punct, ws_star, Grp 2 dot_plus_lazy, rx_alt [lit 63, lit 65311, Eol]]"
  let ?G = "Grp 1 (Rep (\<lambda>c. 48 \<le> c \<and> c \<le> 57) 1 None True)"
  from assms have "[1..<Suc n] = [1..<n] @ [n]" by (intro upt_Suc_append) simp
  then have "rep_counts 1 None True n = n # rev [1..<n]" using assms by (simp add: rep_counts_def)
  then have g: "rx_ends ?G ?t (0, Map.empty)
        = (n, [1 \<mapsto> (0, n)]) # map (\<lambda>k. (k, [1 \<mapsto> (0, k)])) (rev [1..<n])"
    by (simp add: digits_prefix)
  from tail_ends[of n "[1 \<mapsto> (0, n)]"] obtain e c' tl where
    x: "rx_ends ?X ?t (n, [1 \<mapsto> (0, n)]) = (e, c') # tl" and c: "c' 1 = Some (0, n)"
    by auto
  have "rx_ends (Seq Bol (Seq ?G ?X)) ?t (0, Map.empty) = rx_ends (Seq ?G ?X) ?t (0, Map.empty)"
    by simp
  also have "\<dots> = concat (map (rx_ends ?X ?t) (rx_ends ?G ?t (0, Map.empty)))"
    by (simp only: rx_ends.simps(7))
  also have "\<dots> = rx_ends ?X ?t (n, [1 \<mapsto> (0, n)])
        @ concat (map (rx_ends ?X ?t) (map (\<lambda>k. (k, [1 \<mapsto> (0, k)])) (rev [1..<n])))"
    by (simp only: g list.map concat.simps)
  finally have "rx_ends (Seq Bol (Seq ?G ?X)) ?t (0, Map.empty)
          = (e, c') # tl @ concat (map (rx_ends ?X ?t) (map (\<lambda>k. (k, [1 \<mapsto> (0, k)])) (rev [1..<n])))"
    by (simp only: x append_Cons)
  then have "match_at (Seq Bol (Seq ?G ?X)) ?t 0 = Some \<lparr> m_start = 0, m_end = e, m_caps = c' \<rparr>"
    by (simp add: match_at_def)
  then have "\<exists>ms. finditer (Seq Bol (Seq ?G ?X)) ?t = \<lparr> m_start = 0, m_end = e, m_caps = c' \<rparr> # ms"
    unfolding finditer_def by (subst finditer_from.simps) simp
  with c show ?thesis by auto
qed

lemma long_number_positions:
  assumes "4300 < n"
  shows "question_positions ascii_db (replicate n 49 @ step_tail) = Inl ValueError"
proof -
  let ?t = "replicate n 49 @ step_tail"
  let ?f = "\<lambda>(pattern, ngroups). map (mk_position ascii_db ?t ngroups) (finditer pattern ?t)"
  let ?xs = "map ?f (question_patterns ascii_db)"
  have h: "35 \<notin> set ?t" by (simp add: step_tail_def)
  have len: "length (question_patterns ascii_db) = 9" by (simp add: question_patterns_def)
  have 0: "?xs ! 0 = []"
    using heading_pattern_none[OF h] by (simp add: question_patterns_def)
  have 1: "?xs ! 1 = []"
    using heading_pattern_none[OF h] by (simp add: question_patterns_def)
  from assms have "0 < n" by simp
  from numbered_pattern_first[OF this] obtain m ms where
    m: "finditer (Seq Bol (Seq (Grp 1 (Rep (\<lambda>c. 48 \<le> c \<and> c \<le> 57) 1 None True))
            (rx_seq [one_of num_punct, ws_star, Grp 2 dot_plus_lazy, rx_alt [lit 63, lit 65311, Eol]])))
            ?t = m # ms"
    and c: "m_caps m 1 = Some (0, n)" by blast
  have "mk_position ascii_db ?t 2 m = Inl ValueError"
    using c assms by (simp add: mk_position_def group_str_def slice_def py_int_def ascii_db_def
        list_all_iff)
  with m have 2: "?xs ! 2 = Inl ValueError # map (mk_position ascii_db ?t 2) ms"
    by (simp add: question_patterns_def ascii_db_def)
  have "collect (concat ?xs) = Inl ValueError"
  proof (rule collect_error[of 2])
    show "2 < length ?xs" by (simp add: len)
    show "\<forall>j < 2. ?xs ! j = []"
    proof (intro allI impI)
      fix j :: nat assume "j < 2"
      then have "j = 0 \<or> j = 1" by linarith
      with 0 1 show "?xs ! j = []" by auto
    qed
    show "?xs ! 2 = Inl ValueError # map (mk_position ascii_db ?t 2) ms" by (rule 2)
  qed
  then show ?thesis by (simp add: question_positions_def)
qed

lemma long_number_parse:
  assumes "4300 < n"
  shows "parse ascii_db (replicate n 49 @ step_tail) None None = Inl ValueError"
proof -
  let ?t = "replicate n 49 @ step_tail"
  from assms have n: "0 < n" by simp
  have ne: "?t \<noteq> []" by (simp add: step_tail_def)
  have hd: "\<not> is_space (hd ?t)" using n by (simp add: hd_append is_space_def)
  have la: "\<not> is_space (last ?t)" by (simp add: step_tail_def is_space_def)
  have s: "strip ?t = ?t" by (rule strip_id[OF ne hd la])
  have nt: "parser_normalize_text ?t = ?t"
    by (rule parser_normalize_text_id[OF _ _ ne hd la]) (simp_all add: step_tail_def)
  show ?thesis
    using ne by (simp add: parse_def s nt parse_by_question_markers_def long_number_positions[OF assms])
qed

lemma short_number_text_eq:
  "short_number_text = [49, 49, 49, 58, 32, 115, 116, 101, 112, 32, 49]"
  by (simp add: short_number_text_def u_def numeral_3_eq_3)

lemma short_number_normalize: "parser_normalize_text short_number_text = short_number_text"
  by (simp add: parser_normalize_text_def short_number_text_eq rx_eval)

lemma short_number_positions: "question_positions ascii_db short_number_text = Inr []"
  by (simp add: qp_eval short_number_text_eq rx_eval)

lemma short_number_blocks: "finditer (code_block_pattern ascii_db) short_number_text = []"
  by (simp add: code_block_pattern_def short_number_text_eq rx_eval)

lemma short_number_paragraphs:
  "rx_split paragraph_sep short_number_text = [[49, 49, 49, 58, 32, 115, 116, 101, 112, 32, 49]]"
  by (simp add: paragraph_sep_def short_number_text_eq rx_eval)

lemma short_number_not_question:
  "\<not> is_question ascii_db (strip [49, 49, 49, 58, 32, 115, 116, 101, 112, 32, 49])"
  by (simp add: is_question_def qp_eval rx_eval)

lemma short_number_parse: "parse ascii_db short_number_text None None = Inr []"
proof (rule parse_no_structure)
  show "question_positions ascii_db (parser_normalize_text short_number_text) = Inr []"
    by (simp add: short_number_normalize short_number_positions)
  show "finditer (code_block_pattern ascii_db) (parser_normalize_text short_number_text) = []"
    by (simp add: short_number_normalize short_number_blocks)
  show "\<forall>para \<in> set (rx_split paragraph_sep (parser_normalize_text short_number_text)).
          strip para \<noteq> [] \<longrightarrow> \<not> is_question ascii_db (strip para)"
    using short_number_not_question by (simp add: short_number_normalize short_number_paragraphs)
qed

text \<open>
  Claim C9. \<open>parse\<close> does not return on every text. On \<open>111: step 1\<close> no strategy finds
  structure (the numbered marker is dropped as a step marker) and the result is the empty
  list. With the default limit of 4300 digits, the same text with 4301 digits \<open>1\<close> in place
  of the three makes \<open>int\<close> raise \<open>ValueError\<close> in the marker scan, before the step-marker
  check and before any other strategy is tried.
\<close>

theorem parse_raises_on_long_number:
  "int_max_str_digits ascii_db = 4300
   \<and> short_number_text = replicate 3 49 @ u '': step 1''
   \<and> parse ascii_db short_number_text None None = Inr []
   \<and> long_number_text = replicate 4301 49 @ u '': step 1''
   \<and> parse ascii_db long_number_text None None = Inl ValueError"
proof -
  have l: "long_number_text = replicate 4301 49 @ step_tail"
    by (simp add: long_number_text_def step_tail_def u_def)
  have 1: "int_max_str_digits ascii_db = 4300" by (simp add: ascii_db_def)
  have 2: "short_number_text = replicate 3 49 @ u '': step 1''" by (simp add: short_number_text_def)
  have 3: "long_number_text = replicate 4301 49 @ u '': step 1''" by (simp add: long_number_text_def)
  have 4: "parse ascii_db long_number_text None None = Inl ValueError"
    unfolding l by (rule long_number_parse) simp
  from 1 2 short_number_parse 3 4 show ?thesis by blast
qed

end
